theory Spec2Isabelle
  imports Main "HOL-Library.Word" "HOL-Library.Signed_Division"
begin

unbundle bit_operations_syntax

section \<open>The DASH demuxer of libavformat/dashdec.c\<close>

text \<open>
  A shallow embedding of the segment sequencing code of \<^verbatim>\<open>libavformat/dashdec.c\<close>.
  Signed 64-bit fields (\<^verbatim>\<open>int64_t\<close>) are modelled as \<^typ>\<open>int\<close>: signed overflow is
  undefined in C, so the model speaks about runs without it.  Expressions that the C
  code evaluates in \<^verbatim>\<open>uint64_t\<close> (where wrap-around is defined) are modelled on
  \<^typ>\<open>64 word\<close>.
\<close>

subsection \<open>Data model\<close>

text \<open>\<^verbatim>\<open>struct timeline\<close>: one \<^verbatim>\<open>S\<close> element of a SegmentTimeline.\<close>

record timeline =
  starttime :: int
  repeat :: int
  duration :: int

text \<open>\<^verbatim>\<open>struct fragment\<close> (the field \<^verbatim>\<open>size\<close> is \<open>size_f\<close> here).\<close>

record fragment =
  url_offset :: int
  size_f :: int
  url :: string

text \<open>
  \<^verbatim>\<open>struct representation\<close>.  Pointers become options (\<open>None\<close> is \<^verbatim>\<open>NULL\<close>), arrays with
  their counts become lists (\<^verbatim>\<open>n_fragments\<close>, \<^verbatim>\<open>n_timelines\<close> are the lengths), the open
  handles \<^verbatim>\<open>ctx\<close> and \<^verbatim>\<open>input\<close> become flags, and \<open>assoc_discard\<close> is
  \<^verbatim>\<open>assoc_stream->discard\<close> (\<open>None\<close> without an associated stream).  The field
  \<^verbatim>\<open>id\<close> is \<open>id_r\<close>; \<^verbatim>\<open>id_length\<close> is the length of that string.  The period fields,
  which share their names with those of the context, carry the prefix \<open>rep_\<close>.
\<close>

record representation =
  ctx :: bool
  input :: bool
  id_r :: "string option"
  codecs :: "string option"
  scantype :: "string option"
  framerate :: "int \<times> int"
  width :: "32 word"
  height :: "32 word"
  assoc_discard :: "int option"
  fragments :: "fragment list"
  timelines :: "timeline list"
  first_seq_no :: int
  last_seq_no :: int
  start_number :: int
  fragment_duration :: int
  fragment_timescale :: int
  presentation_timeoffset :: int
  cur_seq_no :: int
  cur_seg_offset :: int
  cur_seg_size :: int
  cur_seg :: "fragment option"
  period_media_presentation_duration :: "64 word"
  rep_period_start :: "64 word"
  rep_period_duration :: "64 word"
  init_section :: "fragment option"
  init_sec_buf_size :: "32 word"
  init_sec_data_len :: "32 word"
  init_sec_buf_read_offset :: "32 word"
  init_loaded :: bool
  cur_timestamp :: int
  is_restart_needed :: bool

text \<open>\<^verbatim>\<open>DASHContext\<close>: the representation arrays with their counts are lists.\<close>

record DASHContext =
  base_url :: "string option"
  videos :: "representation list"
  audios :: "representation list"
  subtitles :: "representation list"
  media_presentation_duration :: "64 word"
  suggested_presentation_delay :: "64 word"
  availability_start_time :: "64 word"
  availability_end_time :: "64 word"
  publish_time :: "64 word"
  minimum_update_period :: "64 word"
  time_shift_buffer_depth :: "64 word"
  min_buffer_time :: "64 word"
  period_duration :: "64 word"
  period_start :: "64 word"
  use_timeline_segment_offset_correction :: bool
  fetch_completed_segments_only :: bool
  is_live :: bool

text \<open>A zero-filled representation, as \<^verbatim>\<open>av_mallocz\<close> returns it.\<close>

definition zero_representation :: representation where
  "zero_representation =
     \<lparr>ctx = False, input = False, id_r = None, codecs = None, scantype = None,
      framerate = (0, 0), width = 0, height = 0, assoc_discard = None,
      fragments = [], timelines = [], first_seq_no = 0, last_seq_no = 0, start_number = 0,
      fragment_duration = 0, fragment_timescale = 0, presentation_timeoffset = 0,
      cur_seq_no = 0, cur_seg_offset = 0, cur_seg_size = 0, cur_seg = None,
      period_media_presentation_duration = 0, rep_period_start = 0, rep_period_duration = 0,
      init_section = None, init_sec_buf_size = 0, init_sec_data_len = 0,
      init_sec_buf_read_offset = 0, init_loaded = False, cur_timestamp = 0,
      is_restart_needed = False\<rparr>"

text \<open>A zero-filled context with the two options at their defaults (both on).\<close>

definition default_context :: DASHContext where
  "default_context =
     \<lparr>base_url = None, videos = [], audios = [], subtitles = [],
      media_presentation_duration = 0, suggested_presentation_delay = 0,
      availability_start_time = 0, availability_end_time = 0, publish_time = 0,
      minimum_update_period = 0, time_shift_buffer_depth = 0, min_buffer_time = 0,
      period_duration = 0, period_start = 0,
      use_timeline_segment_offset_correction = True,
      fetch_completed_segments_only = True, is_live = False\<rparr>"

text \<open>Conversions between \<^verbatim>\<open>int64_t\<close> and \<^verbatim>\<open>uint64_t\<close> (two's complement).\<close>

definition u64 :: "int \<Rightarrow> 64 word" where
  "u64 i = word_of_int i"

definition s64 :: "64 word \<Rightarrow> int" where
  "s64 w = sint w"

subsection \<open>Timeline walks\<close>

text \<open>
  The parameter \<^verbatim>\<open>cur_seq_no\<close> of the first walk is called \<open>target\<close>.
  The two walks leave their loops with \<^verbatim>\<open>goto finish\<close>.  A loop body therefore
  yields \<open>Inl r\<close> when it jumps to \<^verbatim>\<open>finish\<close> with result \<open>r\<close>, and \<open>Inr (num, start_time)\<close>
  when it falls through with the updated counters.
\<close>

text \<open>
  The inner loop of \<^verbatim>\<open>get_segment_start_time_based_on_timeline\<close>:
  \<^verbatim>\<open>for (j = 0; j < repeat; j++) { num++; if (num == cur_seq_no) goto finish;
        start_time += duration; }\<close>
\<close>

function gst_repeat :: "timeline \<Rightarrow> int \<Rightarrow> int \<Rightarrow> int \<Rightarrow> int \<Rightarrow> int + (int \<times> int)" where
  "gst_repeat e target j num start_time =
     (if j < repeat e then
        (let num' = num + 1 in
         if num' = target then Inl start_time
         else gst_repeat e target (j + 1) num' (start_time + duration e))
      else Inr (num, start_time))"
  by pat_completeness auto
termination
  by (relation "measure (\<lambda>(e, c, j, n, s). nat (repeat e - j))") auto

declare gst_repeat.simps [simp del]

text \<open>One iteration of the outer loop (one timeline entry).\<close>

definition gst_entry :: "timeline \<Rightarrow> int \<Rightarrow> int \<Rightarrow> int \<Rightarrow> int + (int \<times> int)" where
  "gst_entry e target num start_time =
     (let start_time1 = (if starttime e > 0 then starttime e else start_time) in
      if num = target then Inl start_time1
      else
        let start_time2 = start_time1 + duration e in
        if repeat e = - 1 then Inl (duration e * target)
        else
          (case gst_repeat e target 0 num start_time2 of
             Inl r \<Rightarrow> Inl r
           | Inr (num', start_time') \<Rightarrow> Inr (num' + 1, start_time')))"

text \<open>The outer loop; running off the end of the array reaches \<^verbatim>\<open>finish\<close> with the
  running \<open>start_time\<close>.\<close>

fun gst_walk :: "timeline list \<Rightarrow> int \<Rightarrow> int \<Rightarrow> int \<Rightarrow> int" where
  "gst_walk [] target num start_time = start_time"
| "gst_walk (e # tls) target num start_time =
     (case gst_entry e target num start_time of
        Inl r \<Rightarrow> r
      | Inr (num', start_time') \<Rightarrow> gst_walk tls target num' start_time')"

text \<open>
  \<^verbatim>\<open>get_segment_start_time_based_on_timeline(c, pls, cur_seq_no)\<close>; the parameter
  \<^verbatim>\<open>cur_seq_no\<close> is \<open>target\<close> here.  It reads
  \<^verbatim>\<open>c->use_timeline_segment_offset_correction\<close>, \<^verbatim>\<open>pls->first_seq_no\<close> and the timeline
  array (\<^verbatim>\<open>n_timelines\<close> is the length of the list).
\<close>

definition get_segment_start_time_based_on_timeline ::
    "DASHContext \<Rightarrow> representation \<Rightarrow> int \<Rightarrow> int" where
  "get_segment_start_time_based_on_timeline c pls target =
     (if timelines pls \<noteq> [] then
        (let target' =
               (if use_timeline_segment_offset_correction c \<and> target \<ge> first_seq_no pls
                then target - first_seq_no pls else target)
         in gst_walk (timelines pls) target' 0 0)
      else 0)"

text \<open>
  The inner loop of \<^verbatim>\<open>calc_next_seg_no_from_timelines\<close>:
  \<^verbatim>\<open>for (j = 0; j < repeat; j++) { num++; if (start_time > cur_time) goto finish;
        start_time += duration; }\<close>.
  Here \<^verbatim>\<open>finish\<close> is reached with the counter \<open>num\<close>.
\<close>

function cns_repeat :: "timeline \<Rightarrow> int \<Rightarrow> int \<Rightarrow> int \<Rightarrow> int \<Rightarrow> int + (int \<times> int)" where
  "cns_repeat e cur_time j num start_time =
     (if j < repeat e then
        (let num' = num + 1 in
         if start_time > cur_time then Inl num'
         else cns_repeat e cur_time (j + 1) num' (start_time + duration e))
      else Inr (num, start_time))"
  by pat_completeness auto
termination
  by (relation "measure (\<lambda>(e, c, j, n, s). nat (repeat e - j))") auto

declare cns_repeat.simps [simp del]

definition cns_entry :: "timeline \<Rightarrow> int \<Rightarrow> int \<Rightarrow> int \<Rightarrow> int + (int \<times> int)" where
  "cns_entry e cur_time num start_time =
     (let start_time1 = (if starttime e > 0 then starttime e else start_time) in
      if start_time1 > cur_time then Inl num
      else
        (case cns_repeat e cur_time 0 num (start_time1 + duration e) of
           Inl r \<Rightarrow> Inl r
         | Inr (num', start_time') \<Rightarrow> Inr (num' + 1, start_time')))"

text \<open>The outer loop: \<open>None\<close> when the loop ends without reaching \<^verbatim>\<open>finish\<close>.\<close>

fun cns_walk :: "timeline list \<Rightarrow> int \<Rightarrow> int \<Rightarrow> int \<Rightarrow> int option" where
  "cns_walk [] cur_time num start_time = None"
| "cns_walk (e # tls) cur_time num start_time =
     (case cns_entry e cur_time num start_time of
        Inl r \<Rightarrow> Some r
      | Inr (num', start_time') \<Rightarrow> cns_walk tls cur_time num' start_time')"

text \<open>\<^verbatim>\<open>calc_next_seg_no_from_timelines(c, pls, cur_time)\<close>: \<open>- 1\<close> after the loop,
  otherwise \<open>num\<close>, shifted by \<^verbatim>\<open>first_seq_no\<close> under the offset correction.\<close>

definition calc_next_seg_no_from_timelines ::
    "DASHContext \<Rightarrow> representation \<Rightarrow> int \<Rightarrow> int" where
  "calc_next_seg_no_from_timelines c pls cur_time =
     (case cns_walk (timelines pls) cur_time 0 0 of
        None \<Rightarrow> - 1
      | Some num \<Rightarrow>
          (if use_timeline_segment_offset_correction c then num + first_seq_no pls else num))"

subsection \<open>The reference walk of the specification\<close>

text \<open>
  The specification describes the map from a sequence number to a start time as a walk
  over the entries with a running \<open>start_time\<close> and a counter \<open>num\<close>:
  (1) an entry with \<open>start_time > 0\<close> overwrites the running start time; (2) if \<open>num\<close> is
  the target, return; (3) add the duration, and for each of the entry's \<open>repeat\<close>
  additional repetitions increment \<open>num\<close>, return if matched, else add the duration;
  (4) increment \<open>num\<close>.  An entry with \<open>repeat = - 1\<close> met before the target is matched
  returns \<open>duration * target\<close>.  The repetitions are counted here by a natural number.
\<close>

primrec spec_repetitions :: "nat \<Rightarrow> int \<Rightarrow> int \<Rightarrow> int \<Rightarrow> int \<Rightarrow> int + (int \<times> int)" where
  "spec_repetitions 0 d target num start_time = Inr (num, start_time)"
| "spec_repetitions (Suc k) d target num start_time =
     (if num + 1 = target then Inl start_time
      else spec_repetitions k d target (num + 1) (start_time + d))"

fun spec_walk_from :: "timeline list \<Rightarrow> int \<Rightarrow> int \<Rightarrow> int \<Rightarrow> int" where
  "spec_walk_from [] target num start_time = start_time"
| "spec_walk_from (e # es) target num start_time =
     (let s1 = (if starttime e > 0 then starttime e else start_time) in
      if num = target then s1
      else if repeat e = - 1 then duration e * target
      else
        (case spec_repetitions (nat (repeat e)) (duration e) target num (s1 + duration e) of
           Inl r \<Rightarrow> r
         | Inr (num', s') \<Rightarrow> spec_walk_from es target (num' + 1) s'))"

definition spec_segment_start_time :: "timeline list \<Rightarrow> int \<Rightarrow> int" where
  "spec_segment_start_time es target = spec_walk_from es target 0 0"

text \<open>The target the code walks with: \<^verbatim>\<open>cur_seq_no -= first_seq_no\<close> under its guard.\<close>

definition normalized_target :: "DASHContext \<Rightarrow> representation \<Rightarrow> int \<Rightarrow> int" where
  "normalized_target c pls target =
     (if use_timeline_segment_offset_correction c \<and> target \<ge> first_seq_no pls
      then target - first_seq_no pls else target)"

text \<open>The timeline of the specification's scenario 3:
  \<^verbatim>\<open>S{t=0,d=2,r=1}, S{t=10,d=2,r=0}\<close>.\<close>

definition discontinuity_timeline :: "timeline list" where
  "discontinuity_timeline =
     [\<lparr>starttime = 0, repeat = 1, duration = 2\<rparr>, \<lparr>starttime = 10, repeat = 0, duration = 2\<rparr>]"

subsection \<open>Segment positions of a timeline\<close>

text \<open>
  The running start times at which the walks look: an entry contributes its first segment
  (at the entry's own start, or the running start time when \<^verbatim>\<open>starttime\<close> is not
  positive) and one more segment per repetition.  A negative \<^verbatim>\<open>repeat\<close> runs the
  inner loops zero times.
\<close>

definition entry_start :: "timeline \<Rightarrow> int \<Rightarrow> int" where
  "entry_start e st = (if starttime e > 0 then starttime e else st)"

definition entry_starts :: "timeline \<Rightarrow> int \<Rightarrow> int list" where
  "entry_starts e st =
     map (\<lambda>k. entry_start e st + int k * duration e) [0..<Suc (nat (repeat e))]"

definition entry_end :: "timeline \<Rightarrow> int \<Rightarrow> int" where
  "entry_end e st = entry_start e st + (int (nat (repeat e)) + 1) * duration e"

fun segment_starts :: "timeline list \<Rightarrow> int \<Rightarrow> int list" where
  "segment_starts [] st = []"
| "segment_starts (e # es) st = entry_starts e st @ segment_starts es (entry_end e st)"

fun timeline_end :: "timeline list \<Rightarrow> int \<Rightarrow> int" where
  "timeline_end [] st = st"
| "timeline_end (e # es) st = timeline_end es (entry_end e st)"

text \<open>The index of the first element greater than \<open>t\<close>.\<close>

fun first_after :: "int \<Rightarrow> int list \<Rightarrow> nat option" where
  "first_after t [] = None"
| "first_after t (x # xs) = (if x > t then Some 0 else map_option Suc (first_after t xs))"

text \<open>
  A timeline as ISO/IEC 23009-1 asks for it (see the comment on \<^verbatim>\<open>struct timeline\<close>):
  positive durations, explicit repeat counts, and an explicit start time that is not
  before the end of the previous entry.
\<close>

fun timeline_ok :: "int \<Rightarrow> timeline list \<Rightarrow> bool" where
  "timeline_ok st [] = True"
| "timeline_ok st (e # es) =
     (duration e > 0 \<and> repeat e \<ge> 0 \<and> (if starttime e > 0 then starttime e \<ge> st else True) \<and>
      timeline_ok (entry_end e st) es)"

subsection \<open>Sequence numbers\<close>

text \<open>Narrowing to \<^verbatim>\<open>int\<close> (32 bits, two's complement).\<close>

definition s32 :: "int \<Rightarrow> int" where
  "s32 i = sint (word_of_int i :: 32 word)"

text \<open>
  The loop of \<^verbatim>\<open>calc_max_seg_no\<close> over the timeline.  \<^verbatim>\<open>/\<close> on \<^verbatim>\<open>int64_t\<close> truncates
  (\<open>sdiv\<close>); \<^verbatim>\<open>c->period_duration / length_of_each_segment\<close> is an unsigned division.
  Division by zero is undefined in C; the model has no meaning there.
\<close>

fun calc_max_seg_no_loop :: "DASHContext \<Rightarrow> representation \<Rightarrow> timeline list \<Rightarrow> int \<Rightarrow> int" where
  "calc_max_seg_no_loop c pls [] num = num"
| "calc_max_seg_no_loop c pls (e # es) num =
     calc_max_seg_no_loop c pls es
       (if repeat e = - 1 then
          (let length_of_each_segment = s32 (duration e sdiv fragment_timescale pls)
           in s64 (period_duration c div u64 length_of_each_segment))
        else num + repeat e)"

text \<open>\<^verbatim>\<open>calc_max_seg_no(pls, c)\<close>; \<open>now\<close> is \<^verbatim>\<open>get_current_time_in_sec()\<close>.\<close>

definition calc_max_seg_no :: "64 word \<Rightarrow> representation \<Rightarrow> DASHContext \<Rightarrow> int" where
  "calc_max_seg_no now pls c =
     (if fragments pls \<noteq> [] then first_seq_no pls + int (length (fragments pls)) - 1
      else if timelines pls \<noteq> [] then
        calc_max_seg_no_loop c pls (timelines pls)
          (first_seq_no pls + int (length (timelines pls)) - 1)
      else if is_live c \<and> fragment_duration pls \<noteq> 0 then
        (let num = s64 (u64 (first_seq_no pls) +
                     ((now - availability_start_time c) * u64 (fragment_timescale pls))
                       div u64 (fragment_duration pls))
         in if num > first_seq_no pls \<and> fetch_completed_segments_only c then num - 1 else num)
      else if fragment_duration pls \<noteq> 0 then
        s64 (u64 (first_seq_no pls) +
             (media_presentation_duration c * u64 (fragment_timescale pls))
               div u64 (fragment_duration pls))
      else 0)"

text \<open>
  \<^verbatim>\<open>calc_cur_seg_no(s, pls)\<close>.  The template branch is evaluated in \<^verbatim>\<open>uint64_t\<close> and
  stored into the \<^verbatim>\<open>int64_t num\<close>.
\<close>

definition calc_cur_seg_no :: "64 word \<Rightarrow> DASHContext \<Rightarrow> representation \<Rightarrow> int" where
  "calc_cur_seg_no now c pls =
     (if is_live c then
        if fragments pls \<noteq> [] then first_seq_no pls
        else if timelines pls \<noteq> [] then
          (let start_time_offset =
                 get_segment_start_time_based_on_timeline c pls 0xFFFFFFFF
                   - 60 * fragment_timescale pls;
               num = calc_next_seg_no_from_timelines c pls start_time_offset
           in if num = - 1 then first_seq_no pls
              else if \<not> use_timeline_segment_offset_correction c then num + first_seq_no pls
              else num)
        else if fragment_duration pls \<noteq> 0 then
          if presentation_timeoffset pls \<noteq> 0 then
            s64 (u64 (first_seq_no pls) +
                 (((now - availability_start_time c) * u64 (fragment_timescale pls))
                    - u64 (presentation_timeoffset pls)) div u64 (fragment_duration pls)
                 - min_buffer_time c)
          else if publish_time c > 0 \<and> availability_start_time c = 0 then
            (let num =
               (if min_buffer_time c \<noteq> 0 then
                  s64 (u64 (first_seq_no pls) +
                       (((publish_time c + u64 (fragment_duration pls))
                          - suggested_presentation_delay c) * u64 (fragment_timescale pls))
                         div u64 (fragment_duration pls)
                       - min_buffer_time c)
                else
                  s64 (u64 (first_seq_no pls) +
                       (((publish_time c - time_shift_buffer_depth c
                            + u64 (fragment_duration pls))
                          - suggested_presentation_delay c) * u64 (fragment_timescale pls))
                         div u64 (fragment_duration pls)))
             in if num > first_seq_no pls
                   \<and> (0 = time_shift_buffer_depth c \<and> 0 = suggested_presentation_delay c)
                   \<and> fetch_completed_segments_only c
                then num - 1 else num)
          else
            (let num =
               s64 (u64 (first_seq_no pls) +
                    (((now - availability_start_time c) - suggested_presentation_delay c)
                       * u64 (fragment_timescale pls)) div u64 (fragment_duration pls))
             in if num > first_seq_no pls \<and> 0 = suggested_presentation_delay c
                   \<and> fetch_completed_segments_only c
                then num - 1 else num)
        else 0
      else first_seq_no pls)"

text \<open>
  The sequence number the specification's four-case arithmetic produces for a
  template+duration representation, before the fetch-completed-segments-only adjustment.
\<close>

definition computed_seg_no :: "64 word \<Rightarrow> DASHContext \<Rightarrow> representation \<Rightarrow> int" where
  "computed_seg_no now c pls =
     (let first = u64 (first_seq_no pls); ts = u64 (fragment_timescale pls);
          dur = u64 (fragment_duration pls)
      in if presentation_timeoffset pls \<noteq> 0 then
           s64 (first + ((now - availability_start_time c) * ts
                  - u64 (presentation_timeoffset pls)) div dur - min_buffer_time c)
         else if publish_time c > 0 \<and> availability_start_time c = 0 \<and> min_buffer_time c > 0 then
           s64 (first + ((publish_time c + dur - suggested_presentation_delay c) * ts) div dur
                  - min_buffer_time c)
         else if publish_time c > 0 \<and> availability_start_time c = 0 then
           s64 (first + ((publish_time c - time_shift_buffer_depth c + dur
                  - suggested_presentation_delay c) * ts) div dur)
         else
           s64 (first + ((now - availability_start_time c - suggested_presentation_delay c) * ts)
                  div dur))"

text \<open>A live template+duration representation: no fragment list, no timeline, a
  non-zero \<^verbatim>\<open>fragment_duration\<close>.\<close>

definition live_template_duration :: "DASHContext \<Rightarrow> representation \<Rightarrow> bool" where
  "live_template_duration c pls \<longleftrightarrow>
     is_live c \<and> fragments pls = [] \<and> timelines pls = [] \<and> fragment_duration pls \<noteq> 0"

text \<open>A timeline of one segment of 100 ticks.\<close>

definition long_segment_timeline :: "timeline list" where
  "long_segment_timeline = [\<lparr>starttime = 0, repeat = 0, duration = 100\<rparr>]"

subsection \<open>Error codes and flags\<close>

text \<open>
  The values of libavutil/error.h and libavformat/avformat.h that the code names:
  \<^verbatim>\<open>AVERROR(ENOSYS)\<close> is \<open>- 38\<close>, the other errors are negated four-character tags.
\<close>

definition AVERROR_ENOSYS :: int where "AVERROR_ENOSYS = - 38"
definition AVERROR_EOF :: int where "AVERROR_EOF = - 541478725"
definition AVERROR_INVALIDDATA :: int where "AVERROR_INVALIDDATA = - 1094995529"
definition AVERROR_INPUT_CHANGED :: int where "AVERROR_INPUT_CHANGED = - 1668179713"

definition AVSEEK_FLAG_BACKWARD :: int where "AVSEEK_FLAG_BACKWARD = 1"
definition AVSEEK_FLAG_BYTE :: int where "AVSEEK_FLAG_BYTE = 2"
definition AVDISCARD_ALL :: int where "AVDISCARD_ALL = 48"

datatype AVRounding = AV_ROUND_DOWN | AV_ROUND_UP

subsection \<open>External collaborators\<close>

text \<open>
  What the demuxer calls outside of the sequencing code, taken as parameters:
  \<^item> \<open>avio_read\<close>: the fetcher's read on the open input, from the requested size to its
    result (bytes read, 0, or a negative error);
  \<^item> \<open>get_current_fragment\<close>: the fragment lookup of \<^verbatim>\<open>read_data\<close> when \<^verbatim>\<open>cur_seg\<close> is
    \<^verbatim>\<open>NULL\<close> (it may refresh the manifest over the network);
  \<^item> \<open>reopen_demux_for_component\<close>: closes and reopens the inner container parser, which
    probes and reads through \<^verbatim>\<open>read_data\<close>; its result and what it leaves of the
    representation depend on the media;
  \<^item> \<open>av_seek_frame\<close>: the inner parser's frame seek (after \<^verbatim>\<open>ff_read_frame_flush\<close>);
  \<^item> \<open>av_rescale_rnd\<close>: libavutil's rescaling \<open>a * b / c\<close> with a rounding mode.
\<close>

record externals =
  avio_read :: "int \<Rightarrow> int"
  get_current_fragment :: "representation \<Rightarrow> int \<times> representation"
  reopen_demux_for_component :: "representation \<Rightarrow> int \<times> representation"
  av_seek_frame :: "representation \<Rightarrow> int \<Rightarrow> int \<Rightarrow> int"
  av_rescale_rnd :: "int \<Rightarrow> int \<Rightarrow> int \<Rightarrow> AVRounding \<Rightarrow> int"

subsection \<open>Reading the byte stream\<close>

text \<open>\<^verbatim>\<open>read_from_url(pls, seg, buf, buf_size)\<close>; the bytes themselves are not modelled.\<close>

definition read_from_url ::
    "externals \<Rightarrow> representation \<Rightarrow> fragment \<Rightarrow> int \<Rightarrow> int \<times> representation" where
  "read_from_url ext pls seg buf_size =
     (let buf_size' = (if size_f seg \<ge> 0
                       then min buf_size (cur_seg_size pls - cur_seg_offset pls) else buf_size);
          ret = avio_read ext buf_size'
      in (ret, if ret > 0 then pls\<lparr>cur_seg_offset := cur_seg_offset pls + ret\<rparr> else pls))"

text \<open>
  \<^verbatim>\<open>read_data(opaque, buf, buf_size)\<close> entered with an open input (\<^verbatim>\<open>v->input != NULL\<close>):
  the block under \<^verbatim>\<open>restart:\<close> that opens the next segment is skipped, and the function
  pushes out the initialization section, looks up the current fragment if there is none,
  reads from the fetcher and handles a read that returned nothing.  The swap of the
  MPEG-TS parser hooks around the body does not touch the representation fields modelled
  here.  The result is the return value and the representation.
\<close>

definition read_data :: "externals \<Rightarrow> DASHContext \<Rightarrow> representation \<Rightarrow> int \<Rightarrow> int \<times> representation" where
  "read_data ext c v buf_size =
     (if init_sec_buf_read_offset v < init_sec_data_len v then
        (let copy_size = min (uint (init_sec_data_len v - init_sec_buf_read_offset v)) buf_size
         in (copy_size,
             v\<lparr>init_sec_buf_read_offset := init_sec_buf_read_offset v + word_of_int copy_size\<rparr>))
      else
        (let (err, v1) = (if cur_seg v = None then get_current_fragment ext v else (0, v))
         in if err \<noteq> 0 then (err, v1)
            else
              (case cur_seg v1 of
                 None \<Rightarrow> (AVERROR_EOF, v1)
               | Some seg \<Rightarrow>
                   (let (ret, v2) = read_from_url ext v1 seg buf_size
                    in if ret > 0 then (ret, v2)
                       else if is_live c \<or> cur_seq_no v2 < last_seq_no v2 then
                         (ret, (if \<not> is_restart_needed v2
                                then v2\<lparr>cur_seq_no := cur_seq_no v2 + 1\<rparr> else v2)
                                 \<lparr>is_restart_needed := True\<rparr>)
                       else (ret, v2)))))"

text \<open>The state in which a read goes to the body of the current segment: the input is
  open, the initialization section has been pushed out, a current fragment is set.\<close>

definition in_body :: "representation \<Rightarrow> bool" where
  "in_body v \<longleftrightarrow>
     input v \<and> \<not> init_sec_buf_read_offset v < init_sec_data_len v \<and> cur_seg v \<noteq> None"

subsection \<open>Gating by discard flags\<close>

text \<open>
  The catch-up loop of \<^verbatim>\<open>recheck_discard_flags\<close>, where \<^verbatim>\<open>pls\<close> is \<^verbatim>\<open>p[i]\<close>:
  \<^verbatim>\<open>for (j = 0; j < n; j++) pls->cur_seq_no = FFMAX(pls->cur_seq_no, p[j]->cur_seq_no);\<close>
  The list of indices still to visit is the third argument.
\<close>

fun catch_up :: "representation list \<Rightarrow> nat \<Rightarrow> nat list \<Rightarrow> representation list" where
  "catch_up p i [] = p"
| "catch_up p i (j # js) =
     catch_up (p[i := (p ! i)\<lparr>cur_seq_no := max (cur_seq_no (p ! i)) (cur_seq_no (p ! j))\<rparr>]) i js"

definition needed :: "representation \<Rightarrow> bool" where
  "needed pls = (case assoc_discard pls of None \<Rightarrow> True | Some d \<Rightarrow> d < AVDISCARD_ALL)"

text \<open>One iteration of the loop of \<^verbatim>\<open>recheck_discard_flags\<close>, for the index \<open>i\<close>.\<close>

definition recheck_step :: "externals \<Rightarrow> representation list \<Rightarrow> nat \<Rightarrow> representation list" where
  "recheck_step ext p i =
     (let pls = p ! i in
      if needed pls \<and> \<not> ctx pls then
        (let p1 = p[i := pls\<lparr>cur_seg_offset := 0, init_sec_buf_read_offset := 0\<rparr>];
             p2 = catch_up p1 i [0..<length p1]
         in p2[i := snd (reopen_demux_for_component ext (p2 ! i))])
      else if \<not> needed pls \<and> ctx pls then
        p[i := pls\<lparr>ctx := False, input := False\<rparr>]
      else p)"

text \<open>\<^verbatim>\<open>recheck_discard_flags(s, p, n)\<close>.\<close>

definition recheck_discard_flags :: "externals \<Rightarrow> representation list \<Rightarrow> representation list" where
  "recheck_discard_flags ext p = foldl (recheck_step ext) p [0..<length p]"

text \<open>The first three statements of \<^verbatim>\<open>dash_read_packet\<close>: the gating of the three kinds.\<close>

definition dash_read_packet_gating :: "externals \<Rightarrow> DASHContext \<Rightarrow> DASHContext" where
  "dash_read_packet_gating ext c =
     (let c1 = c\<lparr>videos := recheck_discard_flags ext (videos c)\<rparr>;
          c2 = c1\<lparr>audios := recheck_discard_flags ext (audios c1)\<rparr>
      in c2\<lparr>subtitles := recheck_discard_flags ext (subtitles c2)\<rparr>)"

text \<open>An inner parser that opens without touching the sequencing state.\<close>

definition plain_reopen :: "representation \<Rightarrow> int \<times> representation" where
  "plain_reopen pls = (0, pls\<lparr>ctx := True\<rparr>)"

definition plain_externals :: externals where
  "plain_externals =
     \<lparr>avio_read = (\<lambda>n. 0), get_current_fragment = (\<lambda>v. (0, v)),
      reopen_demux_for_component = plain_reopen, av_seek_frame = (\<lambda>pls ts flags. - 1),
      av_rescale_rnd = (\<lambda>a b c r. a * b div c)\<rparr>"

subsection \<open>Seeking\<close>

text \<open>
  The arithmetic of \<^verbatim>\<open>dash_seek\<close> is on \<^verbatim>\<open>int64_t\<close>, and its loop counter \<^verbatim>\<open>j\<close> is an
  \<^verbatim>\<open>int\<close>.  The sums and products are taken with two's complement wrap-around:
  \<open>wrap64 x\<close> is the \<^verbatim>\<open>int64_t\<close> that holds the low 64 bits of \<open>x\<close>, as \<open>s32\<close> does for an
  \<^verbatim>\<open>int\<close>.
\<close>

definition wrap64 :: "int \<Rightarrow> int" where
  "wrap64 x = sint (word_of_int x :: 64 word)"

text \<open>
  The timeline search of \<^verbatim>\<open>dash_seek\<close>; \<open>dur\<close> is its local \<^verbatim>\<open>duration\<close>.  \<^verbatim>\<open>/\<close> truncates
  (\<open>sdiv\<close>; the divisor \<^verbatim>\<open>fragment_timescale\<close> is positive here).  \<open>Inl num\<close> is the jump
  to \<^verbatim>\<open>set_seq_num\<close>.  With \<^verbatim>\<open>repeat\<close> beyond the range of \<^verbatim>\<open>int\<close> the counter wraps and
  the inner loop need not end: not returning is the value \<open>None\<close>.
\<close>

partial_function (option) seek_repeat ::
    "representation \<Rightarrow> timeline \<Rightarrow> int \<Rightarrow> int \<Rightarrow> int \<Rightarrow> int \<Rightarrow> (int + (int \<times> int)) option" where
  "seek_repeat pls e seek_pos_msec j num dur =
     (if j < repeat e then
        (let dur' = wrap64 (dur + duration e); num' = wrap64 (num + 1) in
         if seek_pos_msec < wrap64 (dur' * 1000) sdiv fragment_timescale pls then Some (Inl num')
         else seek_repeat pls e seek_pos_msec (s32 (j + 1)) num' dur')
      else Some (Inr (num, dur)))"

fun seek_walk :: "representation \<Rightarrow> timeline list \<Rightarrow> int \<Rightarrow> int \<Rightarrow> int \<Rightarrow> int option" where
  "seek_walk pls [] seek_pos_msec num dur = Some num"
| "seek_walk pls (e # es) seek_pos_msec num dur =
     (let dur1 = (if starttime e > 0 then starttime e else dur);
          dur2 = wrap64 (dur1 + duration e)
      in if seek_pos_msec < wrap64 (dur2 * 1000) sdiv fragment_timescale pls then Some num
         else
           (case seek_repeat pls e seek_pos_msec 0 num dur2 of
              None \<Rightarrow> None
            | Some (Inl r) \<Rightarrow> Some r
            | Some (Inr (num', dur')) \<Rightarrow> seek_walk pls es seek_pos_msec (wrap64 (num' + 1)) dur'))"

text \<open>The sequence number that \<^verbatim>\<open>dash_seek\<close> finds for a representation that is not a
  single fragment (the three branches of \<^verbatim>\<open>// find the nearest fragment\<close>).\<close>

definition nearest_fragment :: "representation \<Rightarrow> int \<Rightarrow> int option" where
  "nearest_fragment pls seek_pos_msec =
     (if length (timelines pls) > 0 \<and> fragment_timescale pls > 0 then
        (case seek_walk pls (timelines pls) seek_pos_msec (first_seq_no pls) 0 of
           None \<Rightarrow> None
         | Some num \<Rightarrow> Some (if num > last_seq_no pls then last_seq_no pls else num))
      else if fragment_duration pls > 0 then
        Some (wrap64 (first_seq_no pls +
                (wrap64 (seek_pos_msec * fragment_timescale pls) sdiv fragment_duration pls)
                  sdiv 1000))
      else Some (first_seq_no pls))"

text \<open>\<^verbatim>\<open>dash_seek(s, pls, seek_pos_msec, flags, dry_run)\<close>: the return value and the
  representation, if it returns.\<close>

definition dash_seek ::
    "externals \<Rightarrow> representation \<Rightarrow> int \<Rightarrow> int \<Rightarrow> bool \<Rightarrow> (int \<times> representation) option" where
  "dash_seek ext pls seek_pos_msec flags dry_run =
     (if length (fragments pls) = 1 then
        (let pls1 = pls\<lparr>cur_timestamp := 0, cur_seg_offset := 0\<rparr>
         in if dry_run then Some (0, pls1)
            else Some (av_seek_frame ext pls1 (wrap64 (seek_pos_msec * 1000)) flags, pls1))
      else
        (let pls1 = pls\<lparr>input := False\<rparr> in
         case nearest_fragment pls1 seek_pos_msec of
           None \<Rightarrow> None
         | Some num \<Rightarrow>
             (let pls2 = pls1\<lparr>cur_seq_no := num\<rparr>;
                  pls3 = pls2\<lparr>cur_timestamp := 0, cur_seg_offset := 0,
                              init_sec_buf_read_offset := 0\<rparr>
              in if dry_run then Some (0, pls3) else Some (reopen_demux_for_component ext pls3))))"

text \<open>One of the three loops of \<^verbatim>\<open>dash_read_seek\<close>:
  \<^verbatim>\<open>for (i = 0; i < n; i++) if (!ret) ret = dash_seek(s, p[i], seek_pos_msec, flags, !p[i]->ctx);\<close>\<close>

fun seek_list ::
    "externals \<Rightarrow> int \<Rightarrow> int \<Rightarrow> int \<Rightarrow> representation list
       \<Rightarrow> (int \<times> representation list) option" where
  "seek_list ext seek_pos_msec flags ret [] = Some (ret, [])"
| "seek_list ext seek_pos_msec flags ret (pls # ps) =
     (if ret = 0 then
        (case dash_seek ext pls seek_pos_msec flags (\<not> ctx pls) of
           None \<Rightarrow> None
         | Some (ret1, pls') \<Rightarrow>
             (case seek_list ext seek_pos_msec flags ret1 ps of
                None \<Rightarrow> None
              | Some (ret2, ps') \<Rightarrow> Some (ret2, pls' # ps')))
      else
        (case seek_list ext seek_pos_msec flags ret ps of
           None \<Rightarrow> None
         | Some (ret2, ps') \<Rightarrow> Some (ret2, pls # ps')))"

text \<open>\<^verbatim>\<open>dash_read_seek(s, stream_index, timestamp, flags)\<close>; \<open>den\<close> is
  \<^verbatim>\<open>s->streams[stream_index]->time_base.den\<close>.\<close>

definition dash_read_seek ::
    "externals \<Rightarrow> DASHContext \<Rightarrow> int \<Rightarrow> int \<Rightarrow> int \<Rightarrow> (int \<times> DASHContext) option" where
  "dash_read_seek ext c den timestamp flags =
     (let seek_pos_msec = av_rescale_rnd ext timestamp 1000 den
                            (if flags AND AVSEEK_FLAG_BACKWARD \<noteq> 0
                             then AV_ROUND_DOWN else AV_ROUND_UP)
      in if flags AND AVSEEK_FLAG_BYTE \<noteq> 0 \<or> is_live c then Some (AVERROR_ENOSYS, c)
         else
           (case seek_list ext seek_pos_msec flags 0 (videos c) of
              None \<Rightarrow> None
            | Some (ret1, vs) \<Rightarrow>
                (case seek_list ext seek_pos_msec flags ret1 (audios c) of
                   None \<Rightarrow> None
                 | Some (ret2, as) \<Rightarrow>
                     (case seek_list ext seek_pos_msec flags ret2 (subtitles c) of
                        None \<Rightarrow> None
                      | Some (ret3, ss) \<Rightarrow>
                          Some (ret3, c\<lparr>videos := vs, audios := as, subtitles := ss\<rparr>)))))"

text \<open>A template+duration representation as \<^verbatim>\<open>dash_seek\<close> tells it apart: not a single
  fragment, no timeline with a positive timescale, a positive \<^verbatim>\<open>fragment_duration\<close>.\<close>

definition seeks_by_duration :: "representation \<Rightarrow> bool" where
  "seeks_by_duration pls \<longleftrightarrow>
     length (fragments pls) \<noteq> 1
     \<and> \<not> (length (timelines pls) > 0 \<and> fragment_timescale pls > 0)
     \<and> fragment_duration pls > 0"

text \<open>The representation \<^verbatim>\<open>dash_seek\<close> leaves for a template+duration representation before
  the inner parser is reopened, the product and the sum in \<^verbatim>\<open>int64_t\<close>.\<close>

definition seek_by_duration_result :: "representation \<Rightarrow> int \<Rightarrow> representation" where
  "seek_by_duration_result pls seek_pos_msec =
     pls\<lparr>input := False,
         cur_seq_no := wrap64 (first_seq_no pls +
           (wrap64 (seek_pos_msec * fragment_timescale pls) sdiv fragment_duration pls) sdiv 1000),
         cur_timestamp := 0, cur_seg_offset := 0, init_sec_buf_read_offset := 0\<rparr>"

text \<open>All representations in the order the three loops of \<^verbatim>\<open>dash_read_seek\<close> visit them.\<close>

definition all_reps :: "DASHContext \<Rightarrow> representation list" where
  "all_reps c = videos c @ audios c @ subtitles c"

text \<open>The local \<^verbatim>\<open>seek_pos_msec\<close> of \<^verbatim>\<open>dash_read_seek\<close>.\<close>

definition seek_pos :: "externals \<Rightarrow> int \<Rightarrow> int \<Rightarrow> int \<Rightarrow> int" where
  "seek_pos ext den timestamp flags =
     av_rescale_rnd ext timestamp 1000 den
       (if flags AND AVSEEK_FLAG_BACKWARD \<noteq> 0 then AV_ROUND_DOWN else AV_ROUND_UP)"

text \<open>The values an \<^verbatim>\<open>int64_t\<close> holds.\<close>

definition int64_range :: "int \<Rightarrow> bool" where
  "int64_range x \<longleftrightarrow> - (2 ^ 63) \<le> x \<and> x < 2 ^ 63"

text \<open>What \<^verbatim>\<open>dash_seek\<close> does to the representation \<open>i\<close> of the three lists taken together,
  and whether it was reached: every earlier one returned 0.\<close>

definition seek_of :: "externals \<Rightarrow> DASHContext \<Rightarrow> int \<Rightarrow> int \<Rightarrow> nat
    \<Rightarrow> (int \<times> representation) option" where
  "seek_of ext c seek_pos_msec flags i =
     dash_seek ext (all_reps c ! i) seek_pos_msec flags (\<not> ctx (all_reps c ! i))"

definition reached :: "externals \<Rightarrow> DASHContext \<Rightarrow> int \<Rightarrow> int \<Rightarrow> nat \<Rightarrow> bool" where
  "reached ext c seek_pos_msec flags i \<longleftrightarrow>
     (\<forall>j < i. map_option fst (seek_of ext c seek_pos_msec flags j) = Some 0)"

subsection \<open>Example states\<close>

text \<open>A fragment of unknown size.\<close>

definition seg0 :: fragment where
  "seg0 = \<lparr>url_offset = 0, size_f = - 1, url = ''seg-4.m4s''\<rparr>"

text \<open>An active video representation at sequence number 10 and a disabled audio
  representation at sequence number 3 whose stream is wanted again.\<close>

definition gating_example :: DASHContext where
  "gating_example =
     default_context\<lparr>videos := [zero_representation\<lparr>ctx := True, cur_seq_no := 10\<rparr>],
                     audios := [zero_representation\<lparr>cur_seq_no := 3\<rparr>]\<rparr>"

text \<open>An enabled single-fragment video representation followed by a disabled
  template+duration one.\<close>

definition seek_example :: DASHContext where
  "seek_example =
     default_context\<lparr>videos :=
       [zero_representation\<lparr>ctx := True, fragments := [seg0]\<rparr>,
        zero_representation\<lparr>first_seq_no := 1, fragment_duration := 2, fragment_timescale := 1\<rparr>]\<rparr>"

text \<open>A disabled template+duration video representation, an enabled template+duration
  audio representation, and two subtitle representations: an enabled single fragment and a
  disabled template+duration one.\<close>

definition seek_order_example :: DASHContext where
  "seek_order_example =
     default_context\<lparr>
       videos := [zero_representation\<lparr>first_seq_no := 1, fragment_duration := 2,
                    fragment_timescale := 1\<rparr>],
       audios := [zero_representation\<lparr>ctx := True, fragment_duration := 4,
                    fragment_timescale := 1\<rparr>],
       subtitles := [zero_representation\<lparr>ctx := True, fragments := [seg0]\<rparr>,
                     zero_representation\<lparr>first_seq_no := 1, fragment_duration := 2,
                       fragment_timescale := 1\<rparr>]\<rparr>"

subsection \<open>Period selection\<close>

text \<open>
  The element children of the \<^verbatim>\<open>MPD\<close> root as \<^verbatim>\<open>parse_manifest\<close> tells them apart.  A
  \<^verbatim>\<open>Period\<close> carries \<^verbatim>\<open>period_start_sec\<close> and \<^verbatim>\<open>period_duration_sec\<close>, the \<^verbatim>\<open>uint32_t\<close>
  values that \<^verbatim>\<open>get_duration_insec\<close> returned for its \<^verbatim>\<open>start\<close> and \<^verbatim>\<open>duration\<close>
  attributes (0 when the attribute is missing).
\<close>

datatype mpd_child = Period "32 word" "32 word" | ProgramInformation | OtherElement

fun period_start_of :: "mpd_child \<Rightarrow> 32 word option" where
  "period_start_of (Period period_start_sec period_duration_sec) = Some period_start_sec"
| "period_start_of _ = None"

text \<open>The start times of the Periods of a document, in document order.\<close>

definition period_starts :: "mpd_child list \<Rightarrow> 32 word list" where
  "period_starts nodes = List.map_filter period_start_of nodes"

text \<open>
  The assignments both selection branches make:
  \<^verbatim>\<open>c->period_duration = period_duration_sec; c->period_start = period_start_sec;
  if (c->period_start > 0) c->media_presentation_duration = c->period_duration;\<close>
\<close>

definition set_period :: "DASHContext \<Rightarrow> 32 word \<Rightarrow> 32 word \<Rightarrow> DASHContext" where
  "set_period c period_start_sec period_duration_sec =
     (let c1 = c\<lparr>period_duration := ucast period_duration_sec,
                  period_start := ucast period_start_sec\<rparr>
      in if period_start c1 > 0
         then c1\<lparr>media_presentation_duration := period_duration c1\<rparr> else c1)"

text \<open>
  One iteration of the \<^verbatim>\<open>while (node)\<close> loop of \<^verbatim>\<open>parse_manifest\<close> over the children of the
  root.  The state is the context with the locals \<^verbatim>\<open>default_period_node\<close>,
  \<^verbatim>\<open>matching_period_node\<close> (nodes are named by their position) and \<^verbatim>\<open>min_period_diff\<close>.
  \<^verbatim>\<open>parse_programinformation\<close> only sets metadata.
\<close>

fun period_step ::
    "32 word \<Rightarrow> mpd_child \<Rightarrow> nat \<Rightarrow> DASHContext \<times> nat option \<times> nat option \<times> int
       \<Rightarrow> DASHContext \<times> nat option \<times> nat option \<times> int" where
  "period_step curr_timepoint (Period period_start_sec period_duration_sec) i
       (c, default_period_node, matching_period_node, min_period_diff) =
     (let (c1, default1) =
            (if matching_period_node = None \<and> ucast period_start_sec \<ge> period_start c
             then (set_period c period_start_sec period_duration_sec, Some i)
             else (c, default_period_node));
          diff_val = uint curr_timepoint - uint period_start_sec
      in if diff_val \<ge> 0 \<and> diff_val \<le> min_period_diff
         then (set_period c1 period_start_sec period_duration_sec, default1, Some i, diff_val)
         else (c1, default1, matching_period_node, min_period_diff))"
| "period_step curr_timepoint node i st = st"

fun walk_periods ::
    "32 word \<Rightarrow> mpd_child list \<Rightarrow> nat \<Rightarrow> DASHContext \<times> nat option \<times> nat option \<times> int
       \<Rightarrow> DASHContext \<times> nat option \<times> nat option \<times> int" where
  "walk_periods curr_timepoint [] i st = st"
| "walk_periods curr_timepoint (node # nodes) i st =
     walk_periods curr_timepoint nodes (Suc i) (period_step curr_timepoint node i st)"

definition INT64_MAX :: int where
  "INT64_MAX = 2 ^ 63 - 1"

text \<open>
  The period selection of \<^verbatim>\<open>parse_manifest(s, url, in, curr_timepoint)\<close>: the loop over
  the children of the root and the test after it.  \<open>Inl\<close> is the error the function
  returns; \<open>Inr\<close> gives the context and the position of the Period whose adaptation sets
  are parsed next (\<^verbatim>\<open>matching_period_node ? matching_period_node : default_period_node\<close>).
\<close>

definition parse_manifest_periods ::
    "32 word \<Rightarrow> DASHContext \<Rightarrow> mpd_child list \<Rightarrow> int + (DASHContext \<times> nat)" where
  "parse_manifest_periods curr_timepoint c nodes =
     (case walk_periods curr_timepoint nodes 0 (c, None, None, INT64_MAX) of
        (c', default_period_node, matching_period_node, min_period_diff) \<Rightarrow>
          (case matching_period_node of
             Some i \<Rightarrow> Inr (c', i)
           | None \<Rightarrow>
               (case default_period_node of
                  Some i \<Rightarrow> Inr (c', i)
                | None \<Rightarrow> Inl AVERROR_INVALIDDATA)))"

text \<open>A Period start \<open>q\<close> passes the test
  \<^verbatim>\<open>diff_val >= 0 && diff_val <= min_period_diff\<close> for the bound \<open>md\<close>.\<close>

definition candidate :: "32 word \<Rightarrow> int \<Rightarrow> 32 word \<Rightarrow> bool" where
  "candidate tp md q \<longleftrightarrow> 0 \<le> uint tp - uint q \<and> uint tp - uint q \<le> md"

text \<open>A document with Periods starting at 0, 10 and 20 seconds.\<close>

definition three_periods :: "mpd_child list" where
  "three_periods = [Period 0 10, ProgramInformation, Period 10 10, Period 20 10]"

subsection \<open>ISO-8601 durations\<close>

text \<open>
  \<^verbatim>\<open>get_duration_insec\<close> reads its fields with \<^verbatim>\<open>sscanf(ptr, "%lf%c%n", &value, &type, &size)\<close>
  of the C library.  The scanner is a parameter: for a text it yields the number read
  (of an arbitrary type \<open>'d\<close> standing for \<^verbatim>\<open>double\<close>), the character after it and the count
  of characters consumed, or \<open>None\<close> when the call does not return 2.  A successful call
  has consumed at least the two characters of the two conversions and not more than the
  text has; the type of scanners carries that fact, which makes the loop terminate.
\<close>

typedef 'd scanner =
  "{f :: string \<Rightarrow> ('d \<times> char \<times> nat) option.
      \<forall>s v ty n. f s = Some (v, ty, n) \<longrightarrow> 2 \<le> n \<and> n \<le> length s}"
  morphisms sscanf_lf_c Abs_scanner
  by (rule exI [of _ "\<lambda>s. None"]) simp

setup_lifting type_definition_scanner

lemma sscanf_consumes:
  "sscanf_lf_c sc s = Some (v, ty, n) \<Longrightarrow> 2 \<le> n \<and> n \<le> length s"
  using sscanf_lf_c [of sc] by blast

text \<open>The locals \<^verbatim>\<open>days\<close>, \<^verbatim>\<open>hours\<close>, \<^verbatim>\<open>mins\<close>, \<^verbatim>\<open>secs\<close>.\<close>

record duration_fields =
  days :: "32 word"
  hours :: "32 word"
  mins :: "32 word"
  secs :: "32 word"

text \<open>The \<^verbatim>\<open>switch (type)\<close>; \<open>v\<close> is \<^verbatim>\<open>(uint32_t)value\<close>.\<close>

definition store_field :: "char \<Rightarrow> 32 word \<Rightarrow> duration_fields \<Rightarrow> duration_fields" where
  "store_field ty v st =
     (if ty = CHR ''D'' then st\<lparr>days := v\<rparr>
      else if ty = CHR ''H'' then st\<lparr>hours := v\<rparr>
      else if ty = CHR ''M'' then st\<lparr>mins := v\<rparr>
      else if ty = CHR ''S'' then st\<lparr>secs := v\<rparr>
      else st)"

text \<open>The returned expression, in \<^verbatim>\<open>uint32_t\<close> arithmetic.\<close>

definition total_seconds :: "duration_fields \<Rightarrow> 32 word" where
  "total_seconds st = ((days st * 24 + hours st) * 60 + mins st) * 60 + secs st"

text \<open>The \<^verbatim>\<open>while (*ptr)\<close> loop; \<open>to_uint32\<close> is the conversion \<^verbatim>\<open>(uint32_t)value\<close>.\<close>

function get_duration_loop ::
    "'d scanner \<Rightarrow> ('d \<Rightarrow> 32 word) \<Rightarrow> duration_fields \<Rightarrow> string \<Rightarrow> 32 word" where
  "get_duration_loop sc to_uint32 st [] = total_seconds st"
| "get_duration_loop sc to_uint32 st (c # ptr) =
     (if c = CHR ''P'' \<or> c = CHR ''T'' then get_duration_loop sc to_uint32 st ptr
      else
        (case sscanf_lf_c sc (c # ptr) of
           None \<Rightarrow> 0
         | Some (v, ty, n) \<Rightarrow>
             get_duration_loop sc to_uint32 (store_field ty (to_uint32 v) st) (drop n (c # ptr))))"
  by pat_completeness auto
termination
proof (relation "measure (\<lambda>(sc, cast, st, ptr). length ptr)", goal_cases)
  case 1
  show ?case by simp
next
  case (2 sc cast st c ptr)
  show ?case by simp
next
  case (3 sc cast st c ptr x2 v y ty n)
  then have "sscanf_lf_c sc (c # ptr) = Some (v, ty, n)" by simp
  from sscanf_consumes [OF this] show ?case by simp
qed

text \<open>\<^verbatim>\<open>get_duration_insec(s, duration)\<close>.\<close>

definition get_duration_insec :: "'d scanner \<Rightarrow> ('d \<Rightarrow> 32 word) \<Rightarrow> string \<Rightarrow> 32 word" where
  "get_duration_insec sc to_uint32 duration_str =
     get_duration_loop sc to_uint32 \<lparr>days = 0, hours = 0, mins = 0, secs = 0\<rparr> duration_str"

text \<open>
  A duration text read as a sequence of fields: skip the designators \<^verbatim>\<open>P\<close> and \<^verbatim>\<open>T\<close>,
  and read the remaining text as a number followed by a unit character, again and again.
  \<open>None\<close> when at some point the remaining text does not parse that way.
\<close>

function tokens :: "'d scanner \<Rightarrow> string \<Rightarrow> ('d \<times> char) list option" where
  "tokens sc [] = Some []"
| "tokens sc (c # rest) =
     (if c = CHR ''P'' \<or> c = CHR ''T'' then tokens sc rest
      else
        (case sscanf_lf_c sc (c # rest) of
           None \<Rightarrow> None
         | Some (v, ty, n) \<Rightarrow> map_option ((#) (v, ty)) (tokens sc (drop n (c # rest)))))"
  by pat_completeness auto
termination
proof (relation "measure (\<lambda>(sc, s). length s)", goal_cases)
  case 1
  show ?case by simp
next
  case (2 sc c rest)
  show ?case by simp
next
  case (3 sc c rest x2 v y ty n)
  then have "sscanf_lf_c sc (c # rest) = Some (v, ty, n)" by simp
  from sscanf_consumes [OF this] show ?case by simp
qed

text \<open>The number of the last field with the unit \<open>u\<close>, and its conversion (0 without
  such a field).\<close>

definition field_value :: "char \<Rightarrow> ('d \<times> char) list \<Rightarrow> 'd option" where
  "field_value u fs = map_option fst (List.find (\<lambda>(v, ty). ty = u) (rev fs))"

definition field_u32 :: "('d \<Rightarrow> 32 word) \<Rightarrow> char \<Rightarrow> ('d \<times> char) list \<Rightarrow> 32 word" where
  "field_u32 to_uint32 u fs = (case field_value u fs of None \<Rightarrow> 0 | Some v \<Rightarrow> to_uint32 v)"

text \<open>
  A scanner for the examples: it reads an unsigned decimal integer and the character after
  it, as \<^verbatim>\<open>sscanf\<close> does on such a text.
\<close>

fun digit_of :: "char \<Rightarrow> nat option" where
  "digit_of c =
     (if c = CHR ''0'' then Some 0 else if c = CHR ''1'' then Some 1
      else if c = CHR ''2'' then Some 2 else if c = CHR ''3'' then Some 3
      else if c = CHR ''4'' then Some 4 else if c = CHR ''5'' then Some 5
      else if c = CHR ''6'' then Some 6 else if c = CHR ''7'' then Some 7
      else if c = CHR ''8'' then Some 8 else if c = CHR ''9'' then Some 9 else None)"

fun scan_digits :: "nat \<Rightarrow> nat \<Rightarrow> string \<Rightarrow> (nat \<times> char \<times> nat) option" where
  "scan_digits acc k [] = None"
| "scan_digits acc k (c # cs) =
     (case digit_of c of
        Some d \<Rightarrow> scan_digits (acc * 10 + d) (Suc k) cs
      | None \<Rightarrow> if k = 0 then None else Some (acc, c, Suc k))"

lemma scan_digits_consumes:
  "scan_digits acc k s = Some (v, ty, n) \<Longrightarrow> 2 \<le> n \<and> Suc k \<le> n \<and> n \<le> k + length s"
proof (induction acc k s rule: scan_digits.induct)
  case (1 acc k)
  then show ?case by simp
next
  case (2 acc k c cs)
  show ?case
  proof (cases "digit_of c")
    case None
    with "2.prems" show ?thesis
      by (cases "k = 0") (auto simp del: digit_of.simps)
  next
    case (Some d)
    with "2.prems" have "scan_digits (acc * 10 + d) (Suc k) cs = Some (v, ty, n)"
      by (simp del: digit_of.simps)
    from "2.IH" [OF Some this] show ?thesis by simp
  qed
qed

lift_definition integer_scanner :: "nat scanner" is "scan_digits 0 0"
  using scan_digits_consumes [of 0 0] by force


subsection \<open>Live manifest refresh\<close>

text \<open>
  \<^verbatim>\<open>refresh_manifest(s, target_rep)\<close> compares the pointer \<^verbatim>\<open>target_rep\<close> with the elements
  of the saved arrays.  A representation is named here by its kind and its position in
  the array of that kind.
\<close>

datatype rep_ref = Video nat | Audio nat | Subtitle nat

definition target_rep :: "DASHContext \<Rightarrow> rep_ref \<Rightarrow> representation" where
  "target_rep c t =
     (case t of Video i \<Rightarrow> videos c ! i | Audio i \<Rightarrow> audios c ! i | Subtitle i \<Rightarrow> subtitles c ! i)"

definition valid_ref :: "DASHContext \<Rightarrow> rep_ref \<Rightarrow> bool" where
  "valid_ref c t =
     (case t of Video i \<Rightarrow> i < length (videos c) | Audio i \<Rightarrow> i < length (audios c)
      | Subtitle i \<Rightarrow> i < length (subtitles c))"

text \<open>\<^verbatim>\<open>get_curr_timepoint(pls)\<close>, a \<^verbatim>\<open>uint32_t\<close>.\<close>

definition get_curr_timepoint :: "DASHContext \<Rightarrow> representation \<Rightarrow> 32 word" where
  "get_curr_timepoint c pls =
     (if is_live c then
        if timelines pls \<noteq> [] then
          (if 0 = rep_period_start pls then 0
           else ucast (rep_period_start pls +
                  u64 (get_segment_start_time_based_on_timeline c pls (cur_seq_no pls)
                         sdiv fragment_timescale pls)))
        else if fragment_duration pls \<noteq> 0 then
          word_of_int ((first_seq_no pls * fragment_duration pls) sdiv fragment_timescale pls)
        else 0
      else 0)"

text \<open>\<^verbatim>\<open>av_cmp_q(a, b)\<close> of libavutil/rational.h on \<open>(num, den)\<close> pairs.\<close>

definition av_cmp_q :: "int \<times> int \<Rightarrow> int \<times> int \<Rightarrow> int" where
  "av_cmp_q a b =
     (let tmp = fst a * snd b - fst b * snd a in
      if tmp \<noteq> 0 then (if (tmp < 0) \<noteq> ((snd a < 0) \<noteq> (snd b < 0)) then - 1 else 1)
      else if snd b \<noteq> 0 \<and> snd a \<noteq> 0 then 0
      else if fst a \<noteq> 0 \<and> fst b \<noteq> 0
        then (if fst a < 0 then - 1 else 0) - (if fst b < 0 then - 1 else 0)
      else - (2 ^ 31))"

text \<open>
  \<^verbatim>\<open>move_video_params(c, rep_src, rep_dest)\<close> and \<^verbatim>\<open>move_audio_params\<close>: the return value
  and \<^verbatim>\<open>rep_dest\<close>.  (On a codec or scan type change the string moves from \<^verbatim>\<open>rep_src\<close>,
  which belongs to the refreshed lists that \<^verbatim>\<open>refresh_manifest\<close> frees.)
\<close>

definition move_video_params :: "representation \<Rightarrow> representation \<Rightarrow> int \<times> representation" where
  "move_video_params rep_src rep_dest =
     (if width rep_src \<noteq> width rep_dest \<or> height rep_src \<noteq> height rep_dest then
        (AVERROR_INPUT_CHANGED, rep_dest\<lparr>width := width rep_src, height := height rep_src\<rparr>)
      else if 0 \<noteq> av_cmp_q (framerate rep_src) (framerate rep_dest) then
        (AVERROR_INPUT_CHANGED, rep_dest\<lparr>framerate := framerate rep_src\<rparr>)
      else if codecs rep_src \<noteq> None \<and> codecs rep_dest \<noteq> None
              \<and> codecs rep_src \<noteq> codecs rep_dest then
        (AVERROR_INPUT_CHANGED, rep_dest\<lparr>codecs := codecs rep_src\<rparr>)
      else if scantype rep_src \<noteq> None \<and> scantype rep_dest \<noteq> None
              \<and> scantype rep_src \<noteq> scantype rep_dest then
        (AVERROR_INPUT_CHANGED, rep_dest\<lparr>scantype := scantype rep_src\<rparr>)
      else if (codecs rep_src \<noteq> None) \<noteq> (codecs rep_dest \<noteq> None) then
        (AVERROR_INPUT_CHANGED, rep_dest)
      else if (scantype rep_src \<noteq> None) \<noteq> (scantype rep_dest \<noteq> None) then
        (AVERROR_INPUT_CHANGED, rep_dest)
      else (0, rep_dest))"

definition move_audio_params :: "representation \<Rightarrow> representation \<Rightarrow> int \<times> representation" where
  "move_audio_params rep_src rep_dest =
     (if codecs rep_src \<noteq> None \<and> codecs rep_dest \<noteq> None
         \<and> codecs rep_src \<noteq> codecs rep_dest then
        (AVERROR_INPUT_CHANGED, rep_dest\<lparr>codecs := codecs rep_src\<rparr>)
      else if (codecs rep_src \<noteq> None) \<noteq> (codecs rep_dest \<noteq> None) then
        (AVERROR_INPUT_CHANGED, rep_dest)
      else (0, rep_dest))"

text \<open>\<^verbatim>\<open>move_timelines\<close>, \<^verbatim>\<open>move_segments\<close>, \<^verbatim>\<open>move_init_section\<close>: the new \<^verbatim>\<open>rep_src\<close> and
  \<^verbatim>\<open>rep_dest\<close>.  The list of \<^verbatim>\<open>rep_dest\<close> is freed (and its count set to 0) first; what moved
  is taken out of \<^verbatim>\<open>rep_src\<close>.\<close>

definition move_timelines ::
    "64 word \<Rightarrow> representation \<Rightarrow> representation \<Rightarrow> DASHContext
       \<Rightarrow> representation \<times> representation" where
  "move_timelines now rep_src rep_dest c =
     (let d1 = rep_dest\<lparr>timelines := timelines rep_src, first_seq_no := first_seq_no rep_src\<rparr>;
          d2 = d1\<lparr>last_seq_no := calc_max_seg_no now d1 c\<rparr>
      in (rep_src\<lparr>timelines := []\<rparr>,
          d2\<lparr>cur_seq_no := cur_seq_no rep_src, cur_timestamp := cur_timestamp rep_src\<rparr>))"

definition move_segments ::
    "64 word \<Rightarrow> representation \<Rightarrow> representation \<Rightarrow> DASHContext
       \<Rightarrow> representation \<times> representation" where
  "move_segments now rep_src rep_dest c =
     (let d0 = rep_dest\<lparr>fragments := []\<rparr>;
          d1 = (if start_number rep_src > start_number d0 + int (length (fragments d0))
                then d0\<lparr>cur_seq_no := 0\<rparr>
                else d0\<lparr>cur_seq_no := cur_seq_no d0 + (start_number rep_src - start_number d0)\<rparr>);
          d2 = d1\<lparr>fragments := fragments rep_src\<rparr>;
          d3 = d2\<lparr>last_seq_no := calc_max_seg_no now d2 c\<rparr>
      in (rep_src\<lparr>fragments := []\<rparr>, d3\<lparr>cur_timestamp := cur_timestamp rep_src\<rparr>))"

definition move_init_section ::
    "representation \<Rightarrow> representation \<Rightarrow> representation \<times> representation" where
  "move_init_section rep_src rep_dest =
     (rep_src\<lparr>init_section := None\<rparr>,
      rep_dest\<lparr>init_loaded := False, init_sec_buf_read_offset := 0,
               init_sec_buf_size := init_sec_buf_size rep_src,
               init_sec_data_len := init_sec_data_len rep_src,
               init_section := init_section rep_src\<rparr>)"

text \<open>\<^verbatim>\<open>set_representation_period(c, rep)\<close>.\<close>

definition set_representation_period :: "DASHContext \<Rightarrow> representation \<Rightarrow> representation" where
  "set_representation_period c rep =
     rep\<lparr>rep_period_start := period_start c, rep_period_duration := period_duration c,
         period_media_presentation_duration := media_presentation_duration c\<rparr>"

text \<open>The search for the representation of the refreshed list with the same id
  (\<^verbatim>\<open>id_length\<close> equal and \<^verbatim>\<open>strncmp\<close> over that length equal to 0).\<close>

fun find_by_id :: "representation list \<Rightarrow> representation \<Rightarrow> representation option" where
  "find_by_id [] cur = None"
| "find_by_id (r # rs) cur =
     (if id_r r \<noteq> None \<and> id_r cur \<noteq> None \<and> id_r r = id_r cur then Some r
      else find_by_id rs cur)"

text \<open>
  The splice of a video and of an audio representation once the parameters agree;
  \<open>c\<close> is the context after the parse, \<open>ccur\<close> the representation found in it, \<open>cur\<close> the
  saved one.  The first step handles \<^verbatim>\<open>if (cur->timelines)\<close>, the second
  \<^verbatim>\<open>if (cur->fragments)\<close>; each yields the pair of \<open>ccur\<close> and \<open>cur\<close>.  The audio branch
  stores the new sequence number in an \<^verbatim>\<open>int\<close>, which \<open>narrow\<close> stands for.
\<close>

definition splice_timelines ::
    "(int \<Rightarrow> int) \<Rightarrow> 64 word \<Rightarrow> DASHContext \<Rightarrow> representation \<Rightarrow> representation
       \<Rightarrow> representation \<times> representation" where
  "splice_timelines narrow now c ccur cur =
     (if timelines cur \<noteq> [] then
        (if period_start c > rep_period_start cur then
           (let ccur1 = ccur\<lparr>cur_seq_no := first_seq_no ccur\<rparr>;
                (ccur2, cur2) = move_timelines now ccur1 cur c
            in move_init_section ccur2 cur2)
         else
           (let currentTime =
                  get_segment_start_time_based_on_timeline c cur (cur_seq_no cur)
                    sdiv fragment_timescale cur;
                newSeqNo = narrow (calc_next_seg_no_from_timelines c ccur
                             (currentTime * fragment_timescale ccur - 1))
            in if newSeqNo \<ge> 0
               then move_timelines now (ccur\<lparr>cur_seq_no := newSeqNo\<rparr>) cur c
               else (ccur, cur)))
      else (ccur, cur))"

definition splice_fragments ::
    "64 word \<Rightarrow> DASHContext \<Rightarrow> representation \<Rightarrow> representation
       \<Rightarrow> representation \<times> representation" where
  "splice_fragments now c ccur cur =
     (if fragments cur \<noteq> [] then
        (let (ccur1, cur1) = move_segments now ccur cur c
         in if period_start c > rep_period_start cur1 then
              (let (ccur2, cur2) = move_init_section ccur1 cur1
               in (ccur2, cur2\<lparr>cur_seq_no := start_number ccur2\<rparr>))
            else (ccur1, cur1))
      else (ccur, cur))"

definition splice_video ::
    "64 word \<Rightarrow> DASHContext \<Rightarrow> representation \<Rightarrow> representation \<Rightarrow> representation" where
  "splice_video now c ccur_video cur_video =
     (let (ccur1, cur1) = splice_timelines (\<lambda>n. n) now c ccur_video cur_video;
          (ccur2, cur2) = splice_fragments now c ccur1 cur1
      in set_representation_period c cur2)"

definition splice_audio ::
    "64 word \<Rightarrow> DASHContext \<Rightarrow> representation \<Rightarrow> representation \<Rightarrow> representation" where
  "splice_audio now c ccur_audio cur_audio =
     (let (ccur1, cur1) = splice_timelines s32 now c ccur_audio cur_audio;
          (ccur2, cur2) = splice_fragments now c ccur1 cur1
      in set_representation_period c cur2)"

text \<open>
  The two loops of \<^verbatim>\<open>refresh_manifest\<close> over the saved arrays; only the iteration whose
  element is \<^verbatim>\<open>target_rep\<close> does anything.  \<open>Inl e\<close> is the \<^verbatim>\<open>return e\<close> inside the loop,
  \<open>Inr (ret, array)\<close> the end of the loop or the \<^verbatim>\<open>goto finish\<close> with \<open>ret\<close>.
\<close>

definition refresh_videos ::
    "64 word \<Rightarrow> DASHContext \<Rightarrow> representation list \<Rightarrow> rep_ref
       \<Rightarrow> int + (int \<times> representation list)" where
  "refresh_videos now c videos0 target =
     (case target of
        Video i \<Rightarrow>
          (if i < length videos0 then
             (let cur_video = videos0 ! i in
              case find_by_id (videos c) cur_video of
                None \<Rightarrow> Inl AVERROR_INVALIDDATA
              | Some ccur_video \<Rightarrow>
                  (let (ret, cur1) = move_video_params ccur_video cur_video
                   in if 0 \<noteq> ret then Inr (ret, videos0[i := cur1])
                      else Inr (0, videos0[i := splice_video now c ccur_video cur1])))
           else Inr (0, videos0))
      | _ \<Rightarrow> Inr (0, videos0))"

definition refresh_audios ::
    "64 word \<Rightarrow> DASHContext \<Rightarrow> representation list \<Rightarrow> rep_ref
       \<Rightarrow> int + (int \<times> representation list)" where
  "refresh_audios now c audios0 target =
     (case target of
        Audio i \<Rightarrow>
          (if i < length audios0 then
             (let cur_audio = audios0 ! i in
              case find_by_id (audios c) cur_audio of
                None \<Rightarrow> Inl AVERROR_INVALIDDATA
              | Some ccur_audio \<Rightarrow>
                  (let (ret, cur1) = move_audio_params ccur_audio cur_audio
                   in if 0 \<noteq> ret then Inr (ret, audios0[i := cur1])
                      else Inr (0, audios0[i := splice_audio now c ccur_audio cur1])))
           else Inr (0, audios0))
      | _ \<Rightarrow> Inr (0, audios0))"

text \<open>
  The block under \<^verbatim>\<open>finish:\<close>.  The base URL of the parse is kept when there is one;
  the refreshed lists are freed and the saved arrays put back.
\<close>

definition refresh_finish ::
    "int \<Rightarrow> DASHContext \<Rightarrow> string option \<Rightarrow> representation list \<Rightarrow> representation list
       \<Rightarrow> representation list \<Rightarrow> int \<times> DASHContext" where
  "refresh_finish ret c base_url0 videos0 audios0 subtitles0 =
     (ret, c\<lparr>base_url := (if base_url c \<noteq> None then base_url c else base_url0),
             subtitles := subtitles0, audios := audios0, videos := videos0\<rparr>)"

text \<open>The context \<^verbatim>\<open>refresh_manifest\<close> hands to \<^verbatim>\<open>parse_manifest\<close>.\<close>

definition cleared :: "DASHContext \<Rightarrow> DASHContext" where
  "cleared c = c\<lparr>base_url := None, videos := [], audios := [], subtitles := []\<rparr>"

text \<open>
  \<^verbatim>\<open>refresh_manifest(s, target_rep)\<close>.  \<open>parse_manifest\<close> stands for the call
  \<^verbatim>\<open>parse_manifest(s, s->url, NULL, curr_timepoint)\<close>, which fetches and parses the document:
  from the context and the time point to its return value and the context it leaves.
\<close>

definition refresh_manifest ::
    "(DASHContext \<Rightarrow> 32 word \<Rightarrow> int \<times> DASHContext) \<Rightarrow> 64 word \<Rightarrow> DASHContext \<Rightarrow> rep_ref
       \<Rightarrow> int \<times> DASHContext" where
  "refresh_manifest parse_manifest now c target =
     (let videos0 = videos c; audios0 = audios c; subtitles0 = subtitles c;
          base_url0 = base_url c;
          curr_timepoint = get_curr_timepoint c (target_rep c target);
          (ret, c2) = parse_manifest (cleared c) curr_timepoint
      in if ret \<noteq> 0 then refresh_finish ret c2 base_url0 videos0 audios0 subtitles0
         else
           (case refresh_videos now c2 videos0 target of
              Inl e \<Rightarrow> (e, c2)
            | Inr (ret1, videos1) \<Rightarrow>
                if ret1 \<noteq> 0 then refresh_finish ret1 c2 base_url0 videos1 audios0 subtitles0
                else
                  (case refresh_audios now c2 audios0 target of
                     Inl e \<Rightarrow> (e, c2)
                   | Inr (ret2, audios1) \<Rightarrow>
                       refresh_finish ret2 c2 base_url0 videos1 audios1 subtitles0)))"

text \<open>The refreshed manifest has a representation with the id of the driven one (a
  subtitle representation is not looked up).\<close>

definition target_found :: "DASHContext \<Rightarrow> DASHContext \<Rightarrow> rep_ref \<Rightarrow> bool" where
  "target_found c2 c target =
     (case target of
        Video i \<Rightarrow> find_by_id (videos c2) (videos c ! i) \<noteq> None
      | Audio i \<Rightarrow> find_by_id (audios c2) (audios c ! i) \<noteq> None
      | Subtitle i \<Rightarrow> True)"

text \<open>Two representations agree on everything but the media parameters that
  \<^verbatim>\<open>move_video_params\<close> and \<^verbatim>\<open>move_audio_params\<close> overwrite.\<close>

definition same_but_media_params :: "representation \<Rightarrow> representation \<Rightarrow> bool" where
  "same_but_media_params r r' \<longleftrightarrow>
     r'\<lparr>width := width r, height := height r, framerate := framerate r,
        codecs := codecs r, scantype := scantype r\<rparr> = r"

text \<open>A live presentation with one video representation of width 640, and two refreshed
  manifests: one with the same id at width 1280 under another base URL, one without the
  id.\<close>

definition live_video :: representation where
  "live_video = zero_representation\<lparr>id_r := Some ''v1'', width := 640, height := 360,
                  codecs := Some ''avc1'', fragment_duration := 2, fragment_timescale := 1\<rparr>"

definition live_context :: DASHContext where
  "live_context = default_context\<lparr>is_live := True, base_url := Some ''http://a/live.mpd'',
                    videos := [live_video]\<rparr>"

definition parse_resized :: "DASHContext \<Rightarrow> 32 word \<Rightarrow> int \<times> DASHContext" where
  "parse_resized c curr_timepoint =
     (0, c\<lparr>base_url := Some ''http://b/live.mpd'',
             videos := [live_video\<lparr>width := 1280, height := 720\<rparr>]\<rparr>)"

definition parse_renamed :: "DASHContext \<Rightarrow> 32 word \<Rightarrow> int \<times> DASHContext" where
  "parse_renamed c curr_timepoint =
     (0, c\<lparr>base_url := Some ''http://a/live.mpd'',
             videos := [live_video\<lparr>id_r := Some ''v2''\<rparr>]\<rparr>)"

definition parse_unreachable :: "DASHContext \<Rightarrow> 32 word \<Rightarrow> int \<times> DASHContext" where
  "parse_unreachable c curr_timepoint = (- 5, c)"

text \<open>The outcome of the parse inside \<^verbatim>\<open>refresh_manifest\<close>: its return value and the
  context it leaves.\<close>

definition refreshed ::
    "(DASHContext \<Rightarrow> 32 word \<Rightarrow> int \<times> DASHContext) \<Rightarrow> DASHContext \<Rightarrow> rep_ref \<Rightarrow> int \<times> DASHContext" where
  "refreshed parse_manifest c target =
     parse_manifest (cleared c) (get_curr_timepoint c (target_rep c target))"

text \<open>
  The lists of \<open>c'\<close> are those of \<open>c\<close>: the same counts, the same subtitle list, and in the
  video and audio lists the same representations in the same order, where the driven one
  may differ in its media parameters.
\<close>

definition restored_but_media_params :: "DASHContext \<Rightarrow> DASHContext \<Rightarrow> rep_ref \<Rightarrow> bool" where
  "restored_but_media_params c c' target \<longleftrightarrow>
     length (videos c') = length (videos c) \<and> length (audios c') = length (audios c)
     \<and> subtitles c' = subtitles c
     \<and> (\<forall>i < length (videos c).
           same_but_media_params (videos c ! i) (videos c' ! i)
           \<and> (if target = Video i then True else videos c' ! i = videos c ! i))
     \<and> (\<forall>i < length (audios c).
           same_but_media_params (audios c ! i) (audios c' ! i)
           \<and> (if target = Audio i then True else audios c' ! i = audios c ! i))"

section \<open>Sequence number to start time\<close>

lemma gst_repeat_spec:
  "0 \<le> j \<Longrightarrow> j \<le> repeat e \<Longrightarrow>
   gst_repeat e cur j num st = spec_repetitions (nat (repeat e - j)) (duration e) cur num st"
proof (induction e cur j num st rule: gst_repeat.induct)
  case (1 e cur j num st)
  show ?case
  proof (cases "j < repeat e")
    case True
    then have n: "nat (repeat e - j) = Suc (nat (repeat e - (j + 1)))"
      by simp
    show ?thesis
    proof (cases "num + 1 = cur")
      case True
      with \<open>j < repeat e\<close> n show ?thesis
        by (subst gst_repeat.simps) simp
    next
      case False
      have "gst_repeat e cur (j + 1) (num + 1) (st + duration e) =
            spec_repetitions (nat (repeat e - (j + 1))) (duration e) cur (num + 1) (st + duration e)"
        using "1.IH" [of "num + 1"] True False "1.prems" by simp
      with True False n show ?thesis
        by (subst gst_repeat.simps) simp
    qed
  next
    case False
    with "1.prems" have "repeat e - j = 0" by simp
    with False show ?thesis
      by (subst gst_repeat.simps) simp
  qed
qed

lemma gst_repeat_nonpos:
  "repeat e \<le> 0 \<Longrightarrow> gst_repeat e cur 0 num st = Inr (num, st)"
  by (subst gst_repeat.simps) simp

lemma gst_repeat_spec0:
  "gst_repeat e cur 0 num st = spec_repetitions (nat (repeat e)) (duration e) cur num st"
proof (cases "0 \<le> repeat e")
  case True
  then show ?thesis using gst_repeat_spec [of 0 e cur num st] by simp
next
  case False
  then show ?thesis by (simp add: gst_repeat_nonpos)
qed

lemma gst_walk_spec:
  "gst_walk tls cur num st = spec_walk_from tls cur num st"
proof (induction tls arbitrary: num st)
  case Nil
  show ?case by simp
next
  case (Cons e tls)
  show ?case
    by (simp add: gst_entry_def gst_repeat_spec0 Let_def Cons.IH split: sum.splits prod.splits)
qed

subsection \<open>The walks in terms of segment positions\<close>

lemma first_after_append:
  "first_after t (xs @ ys) =
     (case first_after t xs of Some i \<Rightarrow> Some i
      | None \<Rightarrow> map_option (\<lambda>i. length xs + i) (first_after t ys))"
proof (induction xs)
  case Nil
  show ?case by (cases "first_after t ys") simp_all
next
  case (Cons x xs)
  show ?case
    by (cases "first_after t xs"; cases "first_after t ys") (simp_all add: Cons.IH)
qed

lemma map_upt_Suc: "map f [0..<Suc n] = f 0 # map (\<lambda>k. f (Suc k)) [0..<n]"
  by (simp add: upt_conv_Cons map_Suc_upt [symmetric] del: upt_Suc)

lemma cns_repeat_char:
  "0 \<le> j \<Longrightarrow> j \<le> repeat e \<Longrightarrow> n = nat (repeat e - j) \<Longrightarrow>
   cns_repeat e t j num st =
     (case first_after t (map (\<lambda>k. st + int k * duration e) [0..<n]) of
        Some i \<Rightarrow> Inl (num + 1 + int i)
      | None \<Rightarrow> Inr (num + int n, st + int n * duration e))"
proof (induction n arbitrary: j num st)
  case 0
  then show ?case by (subst cns_repeat.simps) simp
next
  case (Suc n)
  then have lt: "j < repeat e" and n: "n = nat (repeat e - (j + 1))" by auto
  show ?case
  proof (cases "st > t")
    case True
    with lt show ?thesis
      by (subst cns_repeat.simps) (simp add: map_upt_Suc del: upt_Suc)
  next
    case False
    have IH: "cns_repeat e t (j + 1) (num + 1) (st + duration e) =
       (case first_after t (map (\<lambda>k. (st + duration e) + int k * duration e) [0..<n]) of
          Some i \<Rightarrow> Inl (num + 1 + 1 + int i)
        | None \<Rightarrow> Inr (num + 1 + int n, (st + duration e) + int n * duration e))"
      using Suc.IH [of "j + 1" "num + 1" "st + duration e"] Suc.prems lt n by simp
    have eq: "(\<lambda>k. st + int (Suc k) * duration e) = (\<lambda>k. (st + duration e) + int k * duration e)"
      by (auto simp: algebra_simps)
    have step: "cns_repeat e t j num st = cns_repeat e t (j + 1) (num + 1) (st + duration e)"
      using False lt by (subst cns_repeat.simps) simp
    show ?thesis
      unfolding step IH
      by (cases "first_after t (map (\<lambda>k. st + duration e + int k * duration e) [0..<n])")
         (simp_all add: map_upt_Suc eq False algebra_simps del: upt_Suc)
  qed
qed

lemma cns_repeat_nonpos: "repeat e \<le> 0 \<Longrightarrow> cns_repeat e t 0 num st = Inr (num, st)"
  by (subst cns_repeat.simps) simp

lemma cns_entry_char:
  "cns_entry e t num st =
     (case first_after t (entry_starts e st) of
        Some i \<Rightarrow> Inl (num + int i)
      | None \<Rightarrow> Inr (num + int (length (entry_starts e st)), entry_end e st))"
proof (cases "0 \<le> repeat e")
  case True
  have eq: "(\<lambda>k. entry_start e st + int (Suc k) * duration e) =
            (\<lambda>k. (entry_start e st + duration e) + int k * duration e)"
    by (auto simp: algebra_simps)
  show ?thesis
    using True cns_repeat_char [of 0 e "nat (repeat e)" t num "entry_start e st + duration e"]
    by (simp add: cns_entry_def entry_starts_def entry_end_def entry_start_def [symmetric]
          Let_def map_upt_Suc eq algebra_simps del: upt_Suc split: option.splits)
next
  case False
  then show ?thesis
    by (simp add: cns_entry_def entry_starts_def entry_end_def entry_start_def [symmetric]
          Let_def cns_repeat_nonpos)
qed

lemma cns_walk_char:
  "cns_walk tls t num st = map_option (\<lambda>i. num + int i) (first_after t (segment_starts tls st))"
proof (induction tls arbitrary: num st)
  case Nil
  show ?case by simp
next
  case (Cons e tls)
  show ?case
    by (cases "first_after t (entry_starts e st)";
        cases "first_after t (segment_starts tls (entry_end e st))")
       (simp_all add: cns_entry_char first_after_append Cons.IH)
qed

lemma spec_repetitions_char:
  "num < target \<Longrightarrow>
   spec_repetitions n d target num st =
     (if target - num \<le> int n then Inl (st + (target - num - 1) * d)
      else Inr (num + int n, st + int n * d))"
proof (induction n arbitrary: num st)
  case 0
  then show ?case by simp
next
  case (Suc n)
  show ?case
  proof (cases "num + 1 = target")
    case True
    then show ?thesis by simp
  next
    case False
    with Suc.prems have "num + 1 < target" by simp
    from Suc.IH [OF this, of "st + d"] False show ?thesis
      by (simp add: algebra_simps)
  qed
qed

lemma length_entry_starts [simp]: "length (entry_starts e st) = Suc (nat (repeat e))"
  by (simp add: entry_starts_def)

lemma nth_entry_starts:
  "k \<le> nat (repeat e) \<Longrightarrow> entry_starts e st ! k = entry_start e st + int k * duration e"
  unfolding entry_starts_def by (subst nth_map_upt) simp_all

lemma spec_walk_from_char:
  "\<forall>e \<in> set tls. repeat e \<noteq> - 1 \<Longrightarrow> num \<le> target \<Longrightarrow>
   spec_walk_from tls target num st =
     (if nat (target - num) < length (segment_starts tls st)
      then segment_starts tls st ! nat (target - num)
      else timeline_end tls st)"
proof (induction tls arbitrary: num st)
  case Nil
  show ?case by simp
next
  case (Cons e tls)
  let ?r = "nat (repeat e)"
  let ?k = "nat (target - num)"
  from Cons.prems have r: "repeat e \<noteq> - 1" and rest: "\<forall>e \<in> set tls. repeat e \<noteq> - 1"
    by simp_all
  show ?case
  proof (cases "num = target")
    case True
    then show ?thesis
      by (simp add: nth_append nth_entry_starts entry_start_def)
  next
    case False
    with Cons.prems have lt: "num < target" by simp
    show ?thesis
    proof (cases "target - num \<le> int ?r")
      case True
      then have k: "?k \<le> ?r" by linarith
      have "spec_walk_from (e # tls) target num st = entry_start e st + duration e + (target - num - 1) * duration e"
        using False r lt True
        by (simp add: spec_repetitions_char entry_start_def Let_def)
      also have "\<dots> = entry_start e st + int ?k * duration e"
        using lt by (simp add: algebra_simps)
      finally show ?thesis
        using k by (simp add: nth_append nth_entry_starts del: spec_walk_from.simps)
    next
      case False
      then have gt: "int ?r < target - num" by simp
      have rep: "spec_repetitions ?r (duration e) target num (entry_start e st + duration e) =
            Inr (num + int ?r, entry_start e st + duration e + int ?r * duration e)"
        using spec_repetitions_char [OF lt, of ?r] gt by (simp del: int_nat_eq)
      have fin: "entry_start e st + duration e + int ?r * duration e = entry_end e st"
        by (simp add: entry_end_def algebra_simps del: int_nat_eq)
      have "spec_walk_from (e # tls) target num st =
            (case spec_repetitions ?r (duration e) target num (entry_start e st + duration e) of
               Inl r \<Rightarrow> r
             | Inr (num', s') \<Rightarrow> spec_walk_from tls target (num' + 1) s')"
        using \<open>num \<noteq> target\<close> r by (simp add: entry_start_def Let_def del: int_nat_eq)
      also have "\<dots> = spec_walk_from tls target (num + int ?r + 1) (entry_end e st)"
        by (simp only: rep fin sum.case prod.case)
      finally have step: "spec_walk_from (e # tls) target num st =
            spec_walk_from tls target (num + int ?r + 1) (entry_end e st)" .
      have le: "num + int ?r + 1 \<le> target" using gt by linarith
      have k': "nat (target - (num + int ?r + 1)) = ?k - Suc ?r" using gt by linarith
      have notlt: "\<not> ?k < Suc ?r" using gt by linarith
      have iff: "(?k - Suc ?r < length (segment_starts tls (entry_end e st))) =
                 (?k < Suc (?r + length (segment_starts tls (entry_end e st))))"
        using notlt by arith
      show ?thesis
        unfolding step Cons.IH [OF rest le] k'
        using notlt by (simp add: nth_append iff)
    qed
  qed
qed

lemma timeline_ok_bounds:
  "timeline_ok st tls \<Longrightarrow> \<forall>x \<in> set (segment_starts tls st). st \<le> x"
proof (induction tls arbitrary: st)
  case Nil
  show ?case by simp
next
  case (Cons e tls)
  then have d: "duration e > 0" and r: "repeat e \<ge> 0" and ok: "timeline_ok (entry_end e st) tls"
    and s: "st \<le> entry_start e st"
    by (auto simp: entry_start_def)
  have "0 \<le> (int (nat (repeat e)) + 1) * duration e"
    using d by simp
  with s have le: "st \<le> entry_end e st"
    by (simp add: entry_end_def)
  have "\<forall>x \<in> set (entry_starts e st). st \<le> x"
    using s d by (auto simp: entry_starts_def intro: add_increasing2)
  moreover have "\<forall>x \<in> set (segment_starts tls (entry_end e st)). st \<le> x"
    using Cons.IH [OF ok] le by auto
  ultimately show ?case by auto
qed

lemma sorted_entry_starts:
  "duration e > 0 \<Longrightarrow> sorted_wrt (<) (entry_starts e st)"
  unfolding entry_starts_def
  by (simp add: sorted_wrt_map sorted_wrt_upt del: upt_Suc) 

lemma entry_starts_lt_end:
  "duration e > 0 \<Longrightarrow> x \<in> set (entry_starts e st) \<Longrightarrow> x < entry_end e st"
proof -
  assume d: "duration e > 0" and x: "x \<in> set (entry_starts e st)"
  from x obtain k where k: "k < Suc (nat (repeat e))" and xk: "x = entry_start e st + int k * duration e"
    by (auto simp: entry_starts_def simp del: upt_Suc)
  from k have "int k < int (nat (repeat e)) + 1" by linarith
  then have "int k * duration e < (int (nat (repeat e)) + 1) * duration e"
    using d by (rule mult_strict_right_mono)
  then show ?thesis
    by (simp add: xk entry_end_def)
qed

lemma timeline_ok_sorted:
  "timeline_ok st tls \<Longrightarrow> sorted_wrt (<) (segment_starts tls st)"
proof (induction tls arbitrary: st)
  case Nil
  show ?case by simp
next
  case (Cons e tls)
  then have d: "duration e > 0" and ok: "timeline_ok (entry_end e st) tls" by auto
  have "\<forall>x \<in> set (entry_starts e st). \<forall>y \<in> set (segment_starts tls (entry_end e st)). x < y"
    using timeline_ok_bounds [OF ok] entry_starts_lt_end [OF d] by fastforce
  then show ?case
    using Cons.IH [OF ok] sorted_entry_starts [OF d]
    by (simp add: sorted_wrt_append)
qed

lemma first_after_sorted_pred:
  "sorted_wrt (<) xs \<Longrightarrow> k < length xs \<Longrightarrow> first_after (xs ! k - 1) xs = Some k"
proof (induction xs arbitrary: k)
  case Nil
  then show ?case by simp
next
  case (Cons x xs)
  show ?case
  proof (cases k)
    case 0
    then show ?thesis by simp
  next
    case (Suc k')
    with Cons.prems have "x < xs ! k'" by simp
    then have "\<not> xs ! k' - 1 < x" by simp
    moreover have "first_after (xs ! k' - 1) xs = Some k'"
      using Cons.IH [of k'] Cons.prems Suc by simp
    ultimately show ?thesis using Suc by simp
  qed
qed

lemma first_after_sorted_self:
  "sorted_wrt (<) xs \<Longrightarrow> k < length xs \<Longrightarrow>
   first_after (xs ! k) xs = (if Suc k < length xs then Some (Suc k) else None)"
proof (induction xs arbitrary: k)
  case Nil
  then show ?case by simp
next
  case (Cons x xs)
  show ?case
  proof (cases k)
    case 0
    show ?thesis
    proof (cases xs)
      case Nil
      with 0 show ?thesis by simp
    next
      case (Cons y ys)
      with 0 Cons.prems show ?thesis by simp
    qed
  next
    case (Suc k')
    with Cons.prems have "x < xs ! k'" by simp
    then have "\<not> xs ! k' < x" by simp
    moreover have "first_after (xs ! k') xs = (if Suc k' < length xs then Some (Suc k') else None)"
      using Cons.IH [of k'] Cons.prems Suc by simp
    ultimately show ?thesis using Suc by simp
  qed
qed

lemma timeline_ok_repeat: "timeline_ok st tls \<Longrightarrow> \<forall>e \<in> set tls. repeat e \<noteq> - 1"
  by (induction tls arbitrary: st) auto

lemma length_segment_starts_pos: "tls \<noteq> [] \<Longrightarrow> 0 < length (segment_starts tls st)"
  by (cases tls) simp_all

lemma calc_max_seg_no_loop_ok:
  "timeline_ok st tls \<Longrightarrow>
   calc_max_seg_no_loop c pls tls num =
     num + int (length (segment_starts tls st)) - int (length tls)"
proof (induction tls arbitrary: st num)
  case Nil
  show ?case by simp
next
  case (Cons e tls)
  then have r: "repeat e \<ge> 0" and ok: "timeline_ok (entry_end e st) tls" by simp_all
  from r have "repeat e \<noteq> - 1" by simp
  then show ?case
    using Cons.IH [OF ok, of "num + repeat e"] r by simp
qed

lemma calc_max_seg_no_timeline:
  assumes "timeline_ok 0 (timelines pls)" and "timelines pls \<noteq> []" and "fragments pls = []"
  shows "calc_max_seg_no now pls c =
           first_seq_no pls + int (length (segment_starts (timelines pls) 0)) - 1"
  using assms by (simp add: calc_max_seg_no_def calc_max_seg_no_loop_ok [OF assms(1)])

lemma gst_walk_position:
  assumes "timeline_ok 0 tls" and "k < length (segment_starts tls 0)"
  shows "gst_walk tls (int k) 0 0 = segment_starts tls 0 ! k"
  using assms spec_walk_from_char [OF timeline_ok_repeat [OF assms(1)], of 0 "int k" 0]
  by (simp add: gst_walk_spec)

lemma cns_walk_before_position:
  assumes "timeline_ok 0 tls" and "k < length (segment_starts tls 0)"
  shows "cns_walk tls (segment_starts tls 0 ! k - 1) 0 0 = Some (int k)"
  using first_after_sorted_pred [OF timeline_ok_sorted [OF assms(1)] assms(2)]
  by (simp add: cns_walk_char)

lemma cns_walk_at_position:
  assumes "timeline_ok 0 tls" and "k < length (segment_starts tls 0)"
  shows "cns_walk tls (segment_starts tls 0 ! k) 0 0 =
           (if Suc k < length (segment_starts tls 0) then Some (int k + 1) else None)"
  using first_after_sorted_self [OF timeline_ok_sorted [OF assms(1)] assms(2)]
  by (simp add: cns_walk_char)

lemma first_after_None: "first_after t xs = None \<longleftrightarrow> (\<forall>x \<in> set xs. x \<le> t)"
  by (induction xs) auto

lemma spec_start_discontinuity:
  "spec_segment_start_time discontinuity_timeline 0 = 0"
  "spec_segment_start_time discontinuity_timeline 1 = 2"
  "spec_segment_start_time discontinuity_timeline 2 = 10"
  by (simp_all add: spec_segment_start_time_def discontinuity_timeline_def
        numeral_2_eq_2 del: One_nat_def)

lemma timeline_ok_end_mono: "timeline_ok st tls \<Longrightarrow> st \<le> timeline_end tls st"
proof (induction tls arbitrary: st)
  case Nil
  show ?case by simp
next
  case (Cons e tls)
  then have d: "duration e > 0" and ok: "timeline_ok (entry_end e st) tls"
    and s: "st \<le> entry_start e st"
    by (auto simp: entry_start_def)
  have "0 \<le> (int (nat (repeat e)) + 1) * duration e"
    using d by simp
  with s have "st \<le> entry_end e st"
    by (simp add: entry_end_def)
  with Cons.IH [OF ok] show ?case by simp
qed

lemma timeline_ok_before_end:
  "timeline_ok st tls \<Longrightarrow> \<forall>p \<in> set (segment_starts tls st). p < timeline_end tls st"
proof (induction tls arbitrary: st)
  case Nil
  show ?case by simp
next
  case (Cons e tls)
  then have d: "duration e > 0" and ok: "timeline_ok (entry_end e st) tls" by auto
  have "\<forall>p \<in> set (entry_starts e st). p < timeline_end tls (entry_end e st)"
    using entry_starts_lt_end [OF d] timeline_ok_end_mono [OF ok] by fastforce
  with Cons.IH [OF ok] show ?case by auto
qed

section \<open>Catch-up and seek loops\<close>

lemma length_catch_up [simp]: "length (catch_up p i js) = length p"
  by (induction js arbitrary: p) simp_all

lemma foldl_max_Max: "foldl max (m::int) xs = Max (insert m (set xs))"
proof (induction xs arbitrary: m)
  case Nil
  show ?case by simp
next
  case (Cons x xs)
  have "Max (insert (max m x) (set xs)) = Max (insert m (insert x (set xs)))"
    by (cases "set xs = {}") (simp_all add: max.assoc)
  then show ?case by (simp add: Cons.IH)
qed

lemma catch_up_from:
  "i < length q \<Longrightarrow> \<forall>j \<in> set js. j < length q \<Longrightarrow> cur_seq_no (q ! i) \<le> m \<Longrightarrow>
   catch_up (q[i := (q ! i)\<lparr>cur_seq_no := m\<rparr>]) i js =
     q[i := (q ! i)\<lparr>cur_seq_no := foldl max m (map (\<lambda>j. cur_seq_no (q ! j)) js)\<rparr>]"
proof (induction js arbitrary: m)
  case Nil
  show ?case by simp
next
  case (Cons j js)
  let ?p = "q[i := (q ! i)\<lparr>cur_seq_no := m\<rparr>]"
  let ?m' = "max m (cur_seq_no (q ! j))"
  have own: "?p ! i = (q ! i)\<lparr>cur_seq_no := m\<rparr>"
    using Cons.prems(1) by simp
  have other: "cur_seq_no (?p ! j) = (if j = i then m else cur_seq_no (q ! j))"
    using Cons.prems(1) by (simp add: nth_list_update)
  have m': "max m (cur_seq_no (?p ! j)) = ?m'"
    using Cons.prems(3) by (simp add: other)
  have step: "?p[i := (?p ! i)\<lparr>cur_seq_no := max (cur_seq_no (?p ! i)) (cur_seq_no (?p ! j))\<rparr>] =
              q[i := (q ! i)\<lparr>cur_seq_no := ?m'\<rparr>]"
    unfolding own using m' by simp
  have le: "cur_seq_no (q ! i) \<le> ?m'"
    using Cons.prems(3) by simp
  have rest: "\<forall>j \<in> set js. j < length q"
    using Cons.prems(2) by simp
  show ?case
    unfolding catch_up.simps step
    using Cons.IH [OF Cons.prems(1) rest le] by simp
qed

lemma catch_up_all:
  assumes "i < length p"
  shows "catch_up p i [0..<length p] = p[i := (p ! i)\<lparr>cur_seq_no := Max (cur_seq_no ` set p)\<rparr>]"
proof -
  have self: "p[i := (p ! i)\<lparr>cur_seq_no := cur_seq_no (p ! i)\<rparr>] = p"
    by simp
  have idx: "map (\<lambda>j. cur_seq_no (p ! j)) [0..<length p] = map cur_seq_no p"
    by (rule nth_equalityI) simp_all
  have mem: "cur_seq_no (p ! i) \<in> cur_seq_no ` set p"
    using assms by simp
  have "catch_up (p[i := (p ! i)\<lparr>cur_seq_no := cur_seq_no (p ! i)\<rparr>]) i [0..<length p] =
        p[i := (p ! i)\<lparr>cur_seq_no :=
             foldl max (cur_seq_no (p ! i)) (map (\<lambda>j. cur_seq_no (p ! j)) [0..<length p])\<rparr>]"
    by (rule catch_up_from) (use assms in simp_all)
  then show ?thesis
    unfolding self idx foldl_max_Max using mem by (simp add: insert_absorb)
qed

lemma map_cur_seq_no_update:
  "cur_seq_no x = cur_seq_no (p ! i) \<Longrightarrow> map cur_seq_no (p[i := x]) = map cur_seq_no p"
proof (cases "i < length p")
  case True
  assume "cur_seq_no x = cur_seq_no (p ! i)"
  with True have "map cur_seq_no (p[i := x]) = (map cur_seq_no p)[i := map cur_seq_no p ! i]"
    by (simp add: map_update)
  then show ?thesis by (simp only: list_update_id)
next
  case False
  then have "length p \<le> i" by simp
  then have "p[i := x] = p" by (rule list_update_beyond)
  then show ?thesis by simp
qed

section \<open>The seek loops\<close>

lemma wrap64_id: "int64_range x \<Longrightarrow> wrap64 x = x"
  unfolding int64_range_def wrap64_def
  by (simp add: signed_take_bit_int_eq_self sint_sbintrunc')

lemma s32_id: "- (2 ^ 31) \<le> x \<Longrightarrow> x < 2 ^ 31 \<Longrightarrow> s32 x = x"
  unfolding s32_def
  by (simp add: signed_take_bit_int_eq_self sint_sbintrunc')

lemma seek_repeat_returns:
  "0 \<le> j \<Longrightarrow> repeat e < 2 ^ 31 \<Longrightarrow> seek_repeat pls e ms j num dur \<noteq> None"
proof (induction "nat (repeat e - j)" arbitrary: j num dur)
  case 0
  then have "\<not> j < repeat e" by simp
  then show ?case
    by (subst seek_repeat.simps) simp
next
  case (Suc n)
  then have less: "j < repeat e" by linarith
  with Suc.prems have next_j: "s32 (j + 1) = j + 1"
    by (intro s32_id) linarith+
  have "n = nat (repeat e - (j + 1))"
    using Suc.hyps(2) by linarith
  from Suc.hyps(1) [OF this] Suc.prems
  have IH: "seek_repeat pls e ms (j + 1) num' dur' \<noteq> None" for num' dur'
    by simp
  show ?case
    apply (subst seek_repeat.simps)
    using IH by (auto simp: less next_j Let_def)
qed

lemma seek_walk_returns:
  "\<forall>e \<in> set es. repeat e < 2 ^ 31 \<Longrightarrow> seek_walk pls es ms num dur \<noteq> None"
proof (induction es arbitrary: num dur)
  case Nil
  show ?case by simp
next
  case (Cons e es)
  then have r: "repeat e < 2 ^ 31" and rest: "\<forall>e \<in> set es. repeat e < 2 ^ 31"
    by simp_all
  let ?dur2 = "wrap64 ((if starttime e > 0 then starttime e else dur) + duration e)"
  have "seek_repeat pls e ms 0 num ?dur2 \<noteq> None"
    by (rule seek_repeat_returns [OF _ r]) simp
  then obtain x where x: "seek_repeat pls e ms 0 num ?dur2 = Some x"
    by blast
  show ?case
  proof (cases x)
    case (Inl n)
    with x show ?thesis by (simp add: Let_def)
  next
    case (Inr nd)
    obtain num' dur' where "nd = (num', dur')" by (cases nd)
    with x Inr Cons.IH [OF rest, of "wrap64 (num' + 1)" dur'] show ?thesis
      by (simp add: Let_def)
  qed
qed

lemma dash_seek_returns:
  "\<forall>e \<in> set (timelines pls). repeat e < 2 ^ 31 \<Longrightarrow> dash_seek ext pls ms flags dry_run \<noteq> None"
  using seek_walk_returns [of "timelines pls" "pls\<lparr>input := False\<rparr>" ms "first_seq_no pls" 0]
  by (auto simp: dash_seek_def nearest_fragment_def Let_def split: option.splits)

lemma dash_seek_by_duration:
  "seeks_by_duration pls \<Longrightarrow>
   dash_seek ext pls ms flags dry_run =
     Some (if dry_run then (0, seek_by_duration_result pls ms)
           else reopen_demux_for_component ext (seek_by_duration_result pls ms))"
  by (cases "timelines pls = []")
     (simp_all add: seeks_by_duration_def dash_seek_def nearest_fragment_def
        seek_by_duration_result_def Let_def)

lemma seek_list_failed: "ret \<noteq> 0 \<Longrightarrow> seek_list ext ms flags ret ps = Some (ret, ps)"
  by (induction ps) simp_all

lemma seek_list_length:
  "seek_list ext ms flags ret ps = Some (ret', ps') \<Longrightarrow> length ps' = length ps"
proof (induction ps arbitrary: ret ret' ps')
  case Nil
  then show ?case by simp
next
  case (Cons p ps)
  then show ?case
    by (auto split: if_splits option.splits prod.splits)
qed

lemma seek_list_append:
  "seek_list ext ms flags ret (xs @ ys) =
     (case seek_list ext ms flags ret xs of
        None \<Rightarrow> None
      | Some (r1, xs') \<Rightarrow>
          (case seek_list ext ms flags r1 ys of
             None \<Rightarrow> None
           | Some (r2, ys') \<Rightarrow> Some (r2, xs' @ ys')))"
proof (induction xs arbitrary: ret)
  case Nil
  show ?case by (simp split: option.splits prod.splits)
next
  case (Cons x xs)
  show ?case
    by (simp add: Cons.IH split: option.splits prod.splits)
qed

text \<open>The loop over one list, element by element; \<open>passed p\<close>: \<^verbatim>\<open>dash_seek\<close> returned 0.\<close>

lemma seek_list_Cons_passed:
  assumes "seek_list ext ms flags 0 (p # ps) = Some (ret, qs)"
    and "map_option fst (dash_seek ext p ms flags (\<not> ctx p)) = Some 0"
  obtains p' ps' where "dash_seek ext p ms flags (\<not> ctx p) = Some (0, p')"
    and "seek_list ext ms flags 0 ps = Some (ret, ps')" and "qs = p' # ps'"
  using assms by (auto split: option.splits prod.splits)

lemma seek_list_Cons_stopped:
  assumes "seek_list ext ms flags 0 (p # ps) = Some (ret, qs)"
    and "map_option fst (dash_seek ext p ms flags (\<not> ctx p)) \<noteq> Some 0"
  obtains p' where "dash_seek ext p ms flags (\<not> ctx p) = Some (ret, p')"
    and "ret \<noteq> 0" and "qs = p' # ps"
  using assms by (auto simp: seek_list_failed split: option.splits prod.splits)

lemma seek_list_reached:
  "seek_list ext ms flags 0 ps = Some (ret, qs) \<Longrightarrow> i < length ps \<Longrightarrow>
   \<forall>j < i. map_option fst (dash_seek ext (ps ! j) ms flags (\<not> ctx (ps ! j))) = Some 0 \<Longrightarrow>
   map_option snd (dash_seek ext (ps ! i) ms flags (\<not> ctx (ps ! i))) = Some (qs ! i)"
proof (induction ps arbitrary: i qs)
  case Nil
  then show ?case by simp
next
  case (Cons p ps)
  show ?case
  proof (cases i)
    case 0
    show ?thesis
    proof (cases "map_option fst (dash_seek ext p ms flags (\<not> ctx p)) = Some 0")
      case True
      from seek_list_Cons_passed [OF Cons.prems(1) True]
      obtain p' ps' where "dash_seek ext p ms flags (\<not> ctx p) = Some (0, p')" and "qs = p' # ps'"
        by blast
      then show ?thesis
        using 0 by simp
    next
      case False
      from seek_list_Cons_stopped [OF Cons.prems(1) False]
      obtain p' where "dash_seek ext p ms flags (\<not> ctx p) = Some (ret, p')" and "qs = p' # ps"
        by blast
      then show ?thesis
        using 0 by simp
    qed
  next
    case (Suc k)
    with Cons.prems(3) have first: "map_option fst (dash_seek ext p ms flags (\<not> ctx p)) = Some 0"
      by auto
    from Suc Cons.prems have k: "k < length ps"
      and rest: "\<forall>j < k. map_option fst (dash_seek ext (ps ! j) ms flags (\<not> ctx (ps ! j))) = Some 0"
      by auto
    from seek_list_Cons_passed [OF Cons.prems(1) first]
    obtain p' ps' where tl: "seek_list ext ms flags 0 ps = Some (ret, ps')" and qs: "qs = p' # ps'"
      by blast
    show ?thesis
      using Cons.IH [OF tl k rest] by (simp add: Suc qs)
  qed
qed

lemma seek_list_untouched:
  "seek_list ext ms flags 0 ps = Some (ret, qs) \<Longrightarrow> i < length ps \<Longrightarrow>
   \<not> (\<forall>j < i. map_option fst (dash_seek ext (ps ! j) ms flags (\<not> ctx (ps ! j))) = Some 0) \<Longrightarrow>
   qs ! i = ps ! i"
proof (induction ps arbitrary: i qs)
  case Nil
  then show ?case by simp
next
  case (Cons p ps)
  from Cons.prems(3) obtain k where i: "i = Suc k"
    by (cases i) auto
  show ?case
  proof (cases "map_option fst (dash_seek ext p ms flags (\<not> ctx p)) = Some 0")
    case True
    from seek_list_Cons_passed [OF Cons.prems(1) True]
    obtain p' ps' where tl: "seek_list ext ms flags 0 ps = Some (ret, ps')" and qs: "qs = p' # ps'"
      by blast
    from Cons.prems(3) obtain j where j: "j < i"
      and bad: "map_option fst (dash_seek ext ((p # ps) ! j) ms flags (\<not> ctx ((p # ps) ! j))) \<noteq> Some 0"
      by blast
    from bad True obtain j' where j': "j = Suc j'"
      by (cases j) auto
    have "\<not> (\<forall>j < k. map_option fst (dash_seek ext (ps ! j) ms flags (\<not> ctx (ps ! j))) = Some 0)"
      using j bad by (auto simp: i j')
    from Cons.IH [OF tl _ this] Cons.prems(2) show ?thesis
      by (simp add: i qs)
  next
    case False
    from seek_list_Cons_stopped [OF Cons.prems(1) False]
    obtain p' where "qs = p' # ps"
      by blast
    then show ?thesis
      by (simp add: i)
  qed
qed

lemma seek_list_all_passed:
  "seek_list ext ms flags 0 ps = Some (ret, qs) \<Longrightarrow>
   \<forall>j < length ps. map_option fst (dash_seek ext (ps ! j) ms flags (\<not> ctx (ps ! j))) = Some 0 \<Longrightarrow>
   ret = 0"
proof (induction ps arbitrary: qs)
  case Nil
  then show ?case by simp
next
  case (Cons p ps)
  from Cons.prems(2) have first: "map_option fst (dash_seek ext p ms flags (\<not> ctx p)) = Some 0"
    by auto
  from Cons.prems(2)
  have rest: "\<forall>j < length ps. map_option fst (dash_seek ext (ps ! j) ms flags (\<not> ctx (ps ! j))) = Some 0"
    by auto
  from seek_list_Cons_passed [OF Cons.prems(1) first]
  obtain ps' where "seek_list ext ms flags 0 ps = Some (ret, ps')"
    by blast
  from Cons.IH [OF this rest] show ?case .
qed

lemma seek_list_first_failure:
  "seek_list ext ms flags 0 ps = Some (ret, qs) \<Longrightarrow>
   \<not> (\<forall>j < length ps. map_option fst (dash_seek ext (ps ! j) ms flags (\<not> ctx (ps ! j))) = Some 0) \<Longrightarrow>
   \<exists>j < length ps.
      (\<forall>k < j. map_option fst (dash_seek ext (ps ! k) ms flags (\<not> ctx (ps ! k))) = Some 0)
      \<and> map_option fst (dash_seek ext (ps ! j) ms flags (\<not> ctx (ps ! j))) = Some ret \<and> ret \<noteq> 0"
proof (induction ps arbitrary: qs)
  case Nil
  then show ?case by simp
next
  case (Cons p ps)
  show ?case
  proof (cases "map_option fst (dash_seek ext p ms flags (\<not> ctx p)) = Some 0")
    case True
    from seek_list_Cons_passed [OF Cons.prems(1) True]
    obtain ps' where tl: "seek_list ext ms flags 0 ps = Some (ret, ps')"
      by blast
    from Cons.prems(2) obtain j where j: "j < length (p # ps)"
      and bad: "map_option fst (dash_seek ext ((p # ps) ! j) ms flags (\<not> ctx ((p # ps) ! j))) \<noteq> Some 0"
      by blast
    from bad True obtain j' where j': "j = Suc j'"
      by (cases j) auto
    have "\<not> (\<forall>j < length ps. map_option fst (dash_seek ext (ps ! j) ms flags (\<not> ctx (ps ! j))) = Some 0)"
      using j bad by (auto simp: j')
    from Cons.IH [OF tl this] obtain m where m: "m < length ps"
      and before: "\<forall>k < m. map_option fst (dash_seek ext (ps ! k) ms flags (\<not> ctx (ps ! k))) = Some 0"
      and at: "map_option fst (dash_seek ext (ps ! m) ms flags (\<not> ctx (ps ! m))) = Some ret"
      and nz: "ret \<noteq> 0"
      by blast
    have "\<forall>k < Suc m. map_option fst (dash_seek ext ((p # ps) ! k) ms flags (\<not> ctx ((p # ps) ! k))) = Some 0"
    proof (intro allI impI)
      fix k assume "k < Suc m"
      then show "map_option fst (dash_seek ext ((p # ps) ! k) ms flags (\<not> ctx ((p # ps) ! k))) = Some 0"
        using True before by (cases k) auto
    qed
    with m at nz show ?thesis
      by (intro exI [of _ "Suc m"]) simp
  next
    case False
    from seek_list_Cons_stopped [OF Cons.prems(1) False]
    obtain p' where "dash_seek ext p ms flags (\<not> ctx p) = Some (ret, p')" and "ret \<noteq> 0"
      by blast
    then show ?thesis
      by (intro exI [of _ 0]) simp
  qed
qed

lemma seek_list_returns:
  "\<forall>p \<in> set ps. dash_seek ext p ms flags (\<not> ctx p) \<noteq> None \<Longrightarrow>
   seek_list ext ms flags ret ps \<noteq> None"
proof (induction ps arbitrary: ret)
  case Nil
  show ?case by simp
next
  case (Cons p ps)
  then have rest: "seek_list ext ms flags r ps \<noteq> None" for r
    by simp
  from Cons.prems obtain r1 p' where "dash_seek ext p ms flags (\<not> ctx p) = Some (r1, p')"
    by fastforce
  then show ?case
    using rest [of r1] rest [of ret] by (auto split: option.splits)
qed

lemma dash_read_seek_gate:
  "flags AND AVSEEK_FLAG_BYTE \<noteq> 0 \<or> is_live c \<Longrightarrow>
   dash_read_seek ext c den ts flags = Some (AVERROR_ENOSYS, c)"
  by (simp add: dash_read_seek_def Let_def)

lemma dash_read_seek_all:
  assumes "\<not> (flags AND AVSEEK_FLAG_BYTE \<noteq> 0 \<or> is_live c)"
  shows "dash_read_seek ext c den ts flags =
     (case seek_list ext (seek_pos ext den ts flags) flags 0 (all_reps c) of
        None \<Rightarrow> None
      | Some (ret, ps) \<Rightarrow>
          Some (ret, c\<lparr>videos := take (length (videos c)) ps,
                       audios := take (length (audios c)) (drop (length (videos c)) ps),
                       subtitles := drop (length (videos c) + length (audios c)) ps\<rparr>))"
proof -
  let ?ms = "seek_pos ext den ts flags"
  have unfold: "dash_read_seek ext c den ts flags =
     (case seek_list ext ?ms flags 0 (videos c) of
        None \<Rightarrow> None
      | Some (ret1, vs) \<Rightarrow>
          (case seek_list ext ?ms flags ret1 (audios c) of
             None \<Rightarrow> None
           | Some (ret2, as) \<Rightarrow>
               (case seek_list ext ?ms flags ret2 (subtitles c) of
                  None \<Rightarrow> None
                | Some (ret3, ss) \<Rightarrow>
                    Some (ret3, c\<lparr>videos := vs, audios := as, subtitles := ss\<rparr>))))"
    using assms unfolding dash_read_seek_def seek_pos_def Let_def
    by (simp split del: if_split)
  show ?thesis
  proof (cases "seek_list ext ?ms flags 0 (videos c)")
    case None
    then show ?thesis
      by (simp add: unfold all_reps_def seek_list_append)
  next
    case (Some x1)
    obtain ret1 vs where x1: "x1 = (ret1, vs)" by (cases x1)
    from Some x1 have lv: "length vs = length (videos c)"
      by (auto dest: seek_list_length)
    show ?thesis
    proof (cases "seek_list ext ?ms flags ret1 (audios c)")
      case None
      then show ?thesis
        by (simp add: unfold all_reps_def seek_list_append Some x1)
    next
      case a: (Some x2)
      obtain ret2 as where x2: "x2 = (ret2, as)" by (cases x2)
      from a x2 have la: "length as = length (audios c)"
        by (auto dest: seek_list_length)
      show ?thesis
      proof (cases "seek_list ext ?ms flags ret2 (subtitles c)")
        case None
        then show ?thesis
          by (simp add: unfold all_reps_def seek_list_append Some x1 a x2)
      next
        case s: (Some x3)
        obtain ret3 ss where x3: "x3 = (ret3, ss)" by (cases x3)
        show ?thesis
          by (simp add: unfold all_reps_def seek_list_append Some x1 a x2 s x3 lv la)
      qed
    qed
  qed
qed

lemma take_take_drop:
  "take a ps @ take b (drop a ps) @ drop (a + b) ps = ps"
proof -
  have "take b (drop a ps) @ drop (a + b) ps = drop a ps"
    by (metis add.commute append_take_drop_id drop_drop)
  then show ?thesis by simp
qed

lemma dash_read_seek_Some:
  assumes gate: "\<not> (flags AND AVSEEK_FLAG_BYTE \<noteq> 0 \<or> is_live c)"
    and some: "dash_read_seek ext c den ts flags = Some (ret, c')"
  shows "seek_list ext (seek_pos ext den ts flags) flags 0 (all_reps c) = Some (ret, all_reps c')"
    and "c' = c\<lparr>videos := videos c', audios := audios c', subtitles := subtitles c'\<rparr>"
    and "length (videos c') = length (videos c)"
    and "length (audios c') = length (audios c)"
    and "length (subtitles c') = length (subtitles c)"
proof -
  let ?ms = "seek_pos ext den ts flags"
  from some obtain ps where sl: "seek_list ext ?ms flags 0 (all_reps c) = Some (ret, ps)"
    and c': "c' = c\<lparr>videos := take (length (videos c)) ps,
                   audios := take (length (audios c)) (drop (length (videos c)) ps),
                   subtitles := drop (length (videos c) + length (audios c)) ps\<rparr>"
    unfolding dash_read_seek_all [OF gate]
    by (auto split: option.splits prod.splits)
  from seek_list_length [OF sl]
  have len: "length ps = length (videos c) + length (audios c) + length (subtitles c)"
    by (simp add: all_reps_def)
  have "all_reps c' = ps"
    unfolding all_reps_def c' by (simp add: take_take_drop)
  with sl show "seek_list ext ?ms flags 0 (all_reps c) = Some (ret, all_reps c')"
    by simp
  show "c' = c\<lparr>videos := videos c', audios := audios c', subtitles := subtitles c'\<rparr>"
    unfolding c' by simp
  show "length (videos c') = length (videos c)"
    unfolding c' using len by simp
  show "length (audios c') = length (audios c)"
    unfolding c' using len by simp
  show "length (subtitles c') = length (subtitles c)"
    unfolding c' using len by simp
qed

lemma dash_read_seek_returns:
  assumes gate: "\<not> (flags AND AVSEEK_FLAG_BYTE \<noteq> 0 \<or> is_live c)"
    and all: "\<forall>i < length (all_reps c). \<forall>e \<in> set (timelines (all_reps c ! i)). repeat e < 2 ^ 31"
  shows "dash_read_seek ext c den ts flags \<noteq> None"
proof -
  have "\<forall>p \<in> set (all_reps c).
          dash_seek ext p (seek_pos ext den ts flags) flags (\<not> ctx p) \<noteq> None"
  proof
    fix p assume "p \<in> set (all_reps c)"
    then obtain i where "i < length (all_reps c)" and "p = all_reps c ! i"
      by (auto simp: in_set_conv_nth)
    with all have "\<forall>e \<in> set (timelines p). repeat e < 2 ^ 31"
      by simp
    then show "dash_seek ext p (seek_pos ext den ts flags) flags (\<not> ctx p) \<noteq> None"
      by (rule dash_seek_returns)
  qed
  from seek_list_returns [OF this, of 0] show ?thesis
    unfolding dash_read_seek_all [OF gate]
    by (auto split: option.splits prod.splits)
qed

lemma seek_by_duration_exact:
  assumes "int64_range (m * fragment_timescale pls)"
    and "int64_range (first_seq_no pls +
           ((m * fragment_timescale pls) sdiv fragment_duration pls) sdiv 1000)"
  shows "cur_seq_no (seek_by_duration_result pls m) =
           first_seq_no pls + ((m * fragment_timescale pls) sdiv fragment_duration pls) sdiv 1000"
  using assms by (simp add: seek_by_duration_result_def wrap64_id)

text \<open>
  An instance of the wrap-around: a seek to 102481911520608620 ms with
  \<^verbatim>\<open>fragment_timescale = 90000\<close> and \<^verbatim>\<open>fragment_duration = 180000\<close>.  The product leaves
  the range of \<^verbatim>\<open>int64_t\<close> and wraps to \<open>- 8000\<close>, so \<^verbatim>\<open>cur_seq_no\<close> becomes
  \<^verbatim>\<open>first_seq_no\<close>, where the formula over the integers gives 51240955760305.
\<close>

lemma seek_by_duration_overflow:
  "cur_seq_no (seek_by_duration_result
      (zero_representation\<lparr>first_seq_no := 1, fragment_duration := 180000,
         fragment_timescale := 90000\<rparr>) 102481911520608620) = 1
   \<and> 1 + ((102481911520608620 * 90000) sdiv 180000) sdiv 1000 = (51240955760305 :: int)"
  by (simp add: seek_by_duration_result_def zero_representation_def wrap64_def
        signed_divide_int_def)

section \<open>The period walk\<close>

lemma uint_ucast_32_64: "uint (ucast (a :: 32 word) :: 64 word) = uint a"
  by (rule uint_up_ucast) (simp add: is_up)

lemma ucast_32_64_le: "(ucast (a :: 32 word) :: 64 word) \<le> ucast (b :: 32 word) \<longleftrightarrow> a \<le> b"
  by (simp add: word_le_def uint_ucast_32_64)

lemma period_start_set_period [simp]: "period_start (set_period c ps pd) = ucast ps"
  by (simp add: set_period_def Let_def)

lemma period_starts_simps [simp]:
  "period_starts [] = []"
  "period_starts (Period ps pd # nodes) = ps # period_starts nodes"
  "period_starts (ProgramInformation # nodes) = period_starts nodes"
  "period_starts (OtherElement # nodes) = period_starts nodes"
  by (simp_all add: period_starts_def List.map_filter_simps)

lemma walk_matching:
  "walk_periods tp nodes i (c, d, m, md) = (c', d', m', md') \<Longrightarrow>
   (if \<exists>q \<in> set (period_starts nodes). candidate tp md q
    then \<exists>k ps. m' = Some k \<and> i \<le> k \<and> k < i + length nodes
           \<and> period_start_of (nodes ! (k - i)) = Some ps
           \<and> md' = uint tp - uint ps \<and> 0 \<le> md' \<and> md' \<le> md
           \<and> (\<forall>q \<in> set (period_starts nodes). 0 \<le> uint tp - uint q \<longrightarrow> md' \<le> uint tp - uint q)
           \<and> period_start c' = ucast ps
    else m' = m \<and> md' = md \<and> (m \<noteq> None \<longrightarrow> c' = c \<and> d' = d))"
proof (induction nodes arbitrary: i c d m md)
  case Nil
  then show ?case by simp
next
  case (Cons node nodes)
  have shift: ?case
    if step: "period_step tp node i (c, d, m, md) = (c, d, m, md)"
      and same: "period_starts (node # nodes) = period_starts nodes"
  proof -
    from Cons.prems have walk: "walk_periods tp nodes (Suc i) (c, d, m, md) = (c', d', m', md')"
      by (simp add: step)
    note IH = Cons.IH [OF walk]
    show ?thesis
    proof (cases "\<exists>q \<in> set (period_starts nodes). candidate tp md q")
      case ex: True
      with IH obtain k ps' where k: "m' = Some k" "Suc i \<le> k" "k < Suc i + length nodes"
        "period_start_of (nodes ! (k - Suc i)) = Some ps'"
        "md' = uint tp - uint ps'" "0 \<le> md'" "md' \<le> md"
        "\<forall>q \<in> set (period_starts nodes). 0 \<le> uint tp - uint q \<longrightarrow> md' \<le> uint tp - uint q"
        "period_start c' = ucast ps'"
        by auto
      from k(2) have "k - i = Suc (k - Suc i)" by arith
      then have nth: "(node # nodes) ! (k - i) = nodes ! (k - Suc i)" by simp
      have "m' = Some k \<and> i \<le> k \<and> k < i + length (node # nodes)
         \<and> period_start_of ((node # nodes) ! (k - i)) = Some ps'
         \<and> md' = uint tp - uint ps' \<and> 0 \<le> md' \<and> md' \<le> md
         \<and> (\<forall>q \<in> set (period_starts (node # nodes)). 0 \<le> uint tp - uint q \<longrightarrow> md' \<le> uint tp - uint q)
         \<and> period_start c' = ucast ps'"
        using k nth same by simp
      with ex same show ?thesis by (simp only: if_True) blast
    next
      case nex: False
      with IH have "m' = m \<and> md' = md \<and> (m \<noteq> None \<longrightarrow> c' = c \<and> d' = d)"
        by simp
      with nex same show ?thesis by simp
    qed
  qed
  show ?case
  proof (cases node)
    case (Period ps pd)
    let ?diff = "uint tp - uint ps"
    obtain c1 d1 where cd1: "(c1, d1) =
        (if m = None \<and> ucast ps \<ge> period_start c then (set_period c ps pd, Some i) else (c, d))"
      by (cases "m = None \<and> ucast ps \<ge> period_start c") auto
    have keep: "m \<noteq> None \<longrightarrow> c1 = c \<and> d1 = d"
      using cd1 by auto
    show ?thesis
    proof (cases "candidate tp md ps")
      case True
      then have step: "period_step tp node i (c, d, m, md) = (set_period c1 ps pd, d1, Some i, ?diff)"
        using Period cd1 [symmetric] by (simp add: candidate_def Let_def)
      from Cons.prems have walk:
        "walk_periods tp nodes (Suc i) (set_period c1 ps pd, d1, Some i, ?diff) = (c', d', m', md')"
        by (simp add: step)
      note IH = Cons.IH [OF walk]
      from True have d0: "0 \<le> ?diff" "?diff \<le> md" by (simp_all add: candidate_def)
      show ?thesis
      proof (cases "\<exists>q \<in> set (period_starts nodes). candidate tp ?diff q")
        case ex: True
        with IH obtain k ps' where k: "m' = Some k" "Suc i \<le> k" "k < Suc i + length nodes"
          "period_start_of (nodes ! (k - Suc i)) = Some ps'"
          "md' = uint tp - uint ps'" "0 \<le> md'" "md' \<le> ?diff"
          "\<forall>q \<in> set (period_starts nodes). 0 \<le> uint tp - uint q \<longrightarrow> md' \<le> uint tp - uint q"
          "period_start c' = ucast ps'"
          by auto
        from k(2) have "k - i = Suc (k - Suc i)" by arith
        then have nth: "(node # nodes) ! (k - i) = nodes ! (k - Suc i)" by simp
        have all: "\<forall>q \<in> set (period_starts (node # nodes)).
                     0 \<le> uint tp - uint q \<longrightarrow> md' \<le> uint tp - uint q"
          using k(7,8) Period by simp
        have "\<exists>q \<in> set (period_starts (node # nodes)). candidate tp md q"
          using True Period by simp
        moreover have "m' = Some k \<and> i \<le> k \<and> k < i + length (node # nodes)
           \<and> period_start_of ((node # nodes) ! (k - i)) = Some ps'
           \<and> md' = uint tp - uint ps' \<and> 0 \<le> md' \<and> md' \<le> md
           \<and> (\<forall>q \<in> set (period_starts (node # nodes)). 0 \<le> uint tp - uint q \<longrightarrow> md' \<le> uint tp - uint q)
           \<and> period_start c' = ucast ps'"
          using k d0 nth all by simp
        ultimately show ?thesis by (simp only: if_True) blast
      next
        case nex: False
        with IH have r: "m' = Some i" "md' = ?diff" "c' = set_period c1 ps pd"
          by auto
        have all: "\<forall>q \<in> set (period_starts (node # nodes)).
                     0 \<le> uint tp - uint q \<longrightarrow> md' \<le> uint tp - uint q"
          using nex r(2) Period by (auto simp: candidate_def)
        have "\<exists>q \<in> set (period_starts (node # nodes)). candidate tp md q"
          using True Period by simp
        moreover have "m' = Some i \<and> i \<le> i \<and> i < i + length (node # nodes)
           \<and> period_start_of ((node # nodes) ! (i - i)) = Some ps
           \<and> md' = uint tp - uint ps \<and> 0 \<le> md' \<and> md' \<le> md
           \<and> (\<forall>q \<in> set (period_starts (node # nodes)). 0 \<le> uint tp - uint q \<longrightarrow> md' \<le> uint tp - uint q)
           \<and> period_start c' = ucast ps"
          using r d0 all Period by simp
        ultimately show ?thesis by (simp only: if_True) blast
      qed
    next
      case False
      then have step: "period_step tp node i (c, d, m, md) = (c1, d1, m, md)"
        using Period cd1 [symmetric] by (auto simp: candidate_def Let_def)
      from Cons.prems have walk:
        "walk_periods tp nodes (Suc i) (c1, d1, m, md) = (c', d', m', md')"
        by (simp add: step)
      note IH = Cons.IH [OF walk]
      have ex_iff: "(\<exists>q \<in> set (period_starts (node # nodes)). candidate tp md q) \<longleftrightarrow>
                    (\<exists>q \<in> set (period_starts nodes). candidate tp md q)"
        using False Period by simp
      show ?thesis
      proof (cases "\<exists>q \<in> set (period_starts nodes). candidate tp md q")
        case ex: True
        with IH obtain k ps' where k: "m' = Some k" "Suc i \<le> k" "k < Suc i + length nodes"
          "period_start_of (nodes ! (k - Suc i)) = Some ps'"
          "md' = uint tp - uint ps'" "0 \<le> md'" "md' \<le> md"
          "\<forall>q \<in> set (period_starts nodes). 0 \<le> uint tp - uint q \<longrightarrow> md' \<le> uint tp - uint q"
          "period_start c' = ucast ps'"
          by auto
        from k(2) have "k - i = Suc (k - Suc i)" by arith
        then have nth: "(node # nodes) ! (k - i) = nodes ! (k - Suc i)" by simp
        have "0 \<le> uint tp - uint ps \<longrightarrow> md' \<le> uint tp - uint ps"
          using False k(7) by (auto simp: candidate_def)
        then have all: "\<forall>q \<in> set (period_starts (node # nodes)).
                     0 \<le> uint tp - uint q \<longrightarrow> md' \<le> uint tp - uint q"
          using k(8) Period by simp
        have "m' = Some k \<and> i \<le> k \<and> k < i + length (node # nodes)
           \<and> period_start_of ((node # nodes) ! (k - i)) = Some ps'
           \<and> md' = uint tp - uint ps' \<and> 0 \<le> md' \<and> md' \<le> md
           \<and> (\<forall>q \<in> set (period_starts (node # nodes)). 0 \<le> uint tp - uint q \<longrightarrow> md' \<le> uint tp - uint q)
           \<and> period_start c' = ucast ps'"
          using k nth all by simp
        with ex ex_iff show ?thesis by (simp only: if_True) blast
      next
        case nex: False
        with IH have "m' = m \<and> md' = md \<and> (m \<noteq> None \<longrightarrow> c' = c1 \<and> d' = d1)"
          by simp
        with keep have "m' = m \<and> md' = md \<and> (m \<noteq> None \<longrightarrow> c' = c \<and> d' = d)"
          by auto
        with nex ex_iff show ?thesis by simp
      qed
    qed
  next
    case ProgramInformation
    then show ?thesis
      using shift by simp
  next
    case OtherElement
    then show ?thesis
      using shift by simp
  qed
qed

lemma ucast_32_64_less: "(ucast (a :: 32 word) :: 64 word) < ucast (b :: 32 word) \<longleftrightarrow> a < b"
  by (simp add: word_less_def uint_ucast_32_64)

lemma walk_default:
  "walk_periods tp nodes i (c, d, None, md) = (c', d', m', md') \<Longrightarrow>
   \<forall>q \<in> set (period_starts nodes). \<not> candidate tp md q \<Longrightarrow>
   (if \<exists>q \<in> set (period_starts nodes). period_start c \<le> ucast q
    then \<exists>k ps. d' = Some k \<and> i \<le> k \<and> k < i + length nodes
           \<and> period_start_of (nodes ! (k - i)) = Some ps
           \<and> period_start c \<le> ucast ps
           \<and> (\<forall>q \<in> set (period_starts nodes). period_start c \<le> ucast q \<longrightarrow> q \<le> ps)
           \<and> period_start c' = ucast ps
    else d' = d \<and> c' = c)"
proof (induction nodes arbitrary: i c d)
  case Nil
  then show ?case by simp
next
  case (Cons node nodes)
  have shift: ?case
    if step: "period_step tp node i (c, d, None, md) = (c, d, None, md)"
      and same: "period_starts (node # nodes) = period_starts nodes"
      and nocand: "\<forall>q \<in> set (period_starts nodes). \<not> candidate tp md q"
      and vac: "\<forall>q \<in> set (period_starts (node # nodes)). period_start c \<le> ucast q \<longrightarrow>
                  q \<in> set (period_starts nodes)"
  proof -
    from Cons.prems(1) have walk:
      "walk_periods tp nodes (Suc i) (c, d, None, md) = (c', d', m', md')"
      by (simp add: step)
    note IH = Cons.IH [OF walk nocand]
    have ex_iff: "(\<exists>q \<in> set (period_starts (node # nodes)). period_start c \<le> ucast q) \<longleftrightarrow>
                  (\<exists>q \<in> set (period_starts nodes). period_start c \<le> ucast q)"
      using vac same by auto
    show ?thesis
    proof (cases "\<exists>q \<in> set (period_starts nodes). period_start c \<le> ucast q")
      case ex: True
      with IH obtain k ps' where k: "d' = Some k" "Suc i \<le> k" "k < Suc i + length nodes"
        "period_start_of (nodes ! (k - Suc i)) = Some ps'"
        "period_start c \<le> ucast ps'"
        "\<forall>q \<in> set (period_starts nodes). period_start c \<le> ucast q \<longrightarrow> q \<le> ps'"
        "period_start c' = ucast ps'"
        by auto
      from k(2) have "k - i = Suc (k - Suc i)" by arith
      then have nth: "(node # nodes) ! (k - i) = nodes ! (k - Suc i)" by simp
      have all: "\<forall>q \<in> set (period_starts (node # nodes)). period_start c \<le> ucast q \<longrightarrow> q \<le> ps'"
        using k(6) vac by blast
      have "d' = Some k \<and> i \<le> k \<and> k < i + length (node # nodes)
         \<and> period_start_of ((node # nodes) ! (k - i)) = Some ps'
         \<and> period_start c \<le> ucast ps'
         \<and> (\<forall>q \<in> set (period_starts (node # nodes)). period_start c \<le> ucast q \<longrightarrow> q \<le> ps')
         \<and> period_start c' = ucast ps'"
        using k nth all by simp
      with ex ex_iff show ?thesis by (simp only: if_True) blast
    next
      case nex: False
      with IH have "d' = d \<and> c' = c" by simp
      with nex ex_iff show ?thesis by simp
    qed
  qed
  show ?case
  proof (cases node)
    case (Period ps pd)
    from Cons.prems(2) Period have nc: "\<not> candidate tp md ps"
      and nocand: "\<forall>q \<in> set (period_starts nodes). \<not> candidate tp md q"
      by simp_all
    show ?thesis
    proof (cases "period_start c \<le> ucast ps")
      case True
      let ?c1 = "set_period c ps pd"
      have step: "period_step tp node i (c, d, None, md) = (?c1, Some i, None, md)"
        using Period True nc by (auto simp: candidate_def Let_def)
      from Cons.prems(1) have walk:
        "walk_periods tp nodes (Suc i) (?c1, Some i, None, md) = (c', d', m', md')"
        by (simp add: step)
      note IH = Cons.IH [OF walk nocand]
      have ex: "\<exists>q \<in> set (period_starts (node # nodes)). period_start c \<le> ucast q"
        using True Period by simp
      show ?thesis
      proof (cases "\<exists>q \<in> set (period_starts nodes). (ucast ps :: 64 word) \<le> ucast q")
        case True
        with IH obtain k ps' where k: "d' = Some k" "Suc i \<le> k" "k < Suc i + length nodes"
          "period_start_of (nodes ! (k - Suc i)) = Some ps'"
          "(ucast ps :: 64 word) \<le> ucast ps'"
          "\<forall>q \<in> set (period_starts nodes). (ucast ps :: 64 word) \<le> ucast q \<longrightarrow> q \<le> ps'"
          "period_start c' = ucast ps'"
          by auto
        from k(2) have "k - i = Suc (k - Suc i)" by arith
        then have nth: "(node # nodes) ! (k - i) = nodes ! (k - Suc i)" by simp
        from k(5) have le: "ps \<le> ps'" by (simp add: ucast_32_64_le)
        have "q \<le> ps'" if "q \<in> set (period_starts nodes)" for q
        proof (cases "(ucast ps :: 64 word) \<le> ucast q")
          case True
          with k(6) that show ?thesis by blast
        next
          case False
          then have "q \<le> ps" by (simp add: ucast_32_64_le)
          with le show ?thesis by simp
        qed
        with le have all: "\<forall>q \<in> set (period_starts (node # nodes)).
                             period_start c \<le> ucast q \<longrightarrow> q \<le> ps'"
          using Period by simp
        have "period_start c \<le> ucast ps'"
          using \<open>period_start c \<le> ucast ps\<close> k(5) by simp
        then have "d' = Some k \<and> i \<le> k \<and> k < i + length (node # nodes)
           \<and> period_start_of ((node # nodes) ! (k - i)) = Some ps'
           \<and> period_start c \<le> ucast ps'
           \<and> (\<forall>q \<in> set (period_starts (node # nodes)). period_start c \<le> ucast q \<longrightarrow> q \<le> ps')
           \<and> period_start c' = ucast ps'"
          using k nth all by simp
        with ex show ?thesis by (simp only: if_True) blast
      next
        case False
        with IH have r: "d' = Some i" "c' = ?c1" by simp_all
        from False have "\<forall>q \<in> set (period_starts nodes). q \<le> ps"
          by (auto simp: ucast_32_64_le)
        then have all: "\<forall>q \<in> set (period_starts (node # nodes)).
                             period_start c \<le> ucast q \<longrightarrow> q \<le> ps"
          using Period by simp
        have "d' = Some i \<and> i \<le> i \<and> i < i + length (node # nodes)
           \<and> period_start_of ((node # nodes) ! (i - i)) = Some ps
           \<and> period_start c \<le> ucast ps
           \<and> (\<forall>q \<in> set (period_starts (node # nodes)). period_start c \<le> ucast q \<longrightarrow> q \<le> ps)
           \<and> period_start c' = ucast ps"
          using r all Period \<open>period_start c \<le> ucast ps\<close> by simp
        with ex show ?thesis by (simp only: if_True) blast
      qed
    next
      case False
      have step: "period_step tp node i (c, d, None, md) = (c, d, None, md)"
        using Period False nc by (auto simp: candidate_def Let_def)
      have vac: "\<forall>q \<in> set (period_starts (node # nodes)). period_start c \<le> ucast q \<longrightarrow>
                  q \<in> set (period_starts nodes)"
        using Period False by auto
      have ex_iff: "(\<exists>q \<in> set (period_starts (node # nodes)). period_start c \<le> ucast q) \<longleftrightarrow>
                  (\<exists>q \<in> set (period_starts nodes). period_start c \<le> ucast q)"
        using Period False by auto
      from Cons.prems(1) have walk:
        "walk_periods tp nodes (Suc i) (c, d, None, md) = (c', d', m', md')"
        by (simp add: step)
      note IH = Cons.IH [OF walk nocand]
      show ?thesis
      proof (cases "\<exists>q \<in> set (period_starts nodes). period_start c \<le> ucast q")
        case ex: True
        with IH obtain k ps' where k: "d' = Some k" "Suc i \<le> k" "k < Suc i + length nodes"
          "period_start_of (nodes ! (k - Suc i)) = Some ps'"
          "period_start c \<le> ucast ps'"
          "\<forall>q \<in> set (period_starts nodes). period_start c \<le> ucast q \<longrightarrow> q \<le> ps'"
          "period_start c' = ucast ps'"
          by auto
        from k(2) have "k - i = Suc (k - Suc i)" by arith
        then have nth: "(node # nodes) ! (k - i) = nodes ! (k - Suc i)" by simp
        have all: "\<forall>q \<in> set (period_starts (node # nodes)). period_start c \<le> ucast q \<longrightarrow> q \<le> ps'"
          using k(6) vac by blast
        have "d' = Some k \<and> i \<le> k \<and> k < i + length (node # nodes)
           \<and> period_start_of ((node # nodes) ! (k - i)) = Some ps'
           \<and> period_start c \<le> ucast ps'
           \<and> (\<forall>q \<in> set (period_starts (node # nodes)). period_start c \<le> ucast q \<longrightarrow> q \<le> ps')
           \<and> period_start c' = ucast ps'"
          using k nth all by simp
        with ex ex_iff show ?thesis by (simp only: if_True) blast
      next
        case nex: False
        with IH have "d' = d \<and> c' = c" by simp
        with nex ex_iff show ?thesis by simp
      qed
    qed
  next
    case ProgramInformation
    then show ?thesis
      using shift Cons.prems(2) by simp
  next
    case OtherElement
    then show ?thesis
      using shift Cons.prems(2) by simp
  qed
qed

lemma candidate_INT64_MAX: "candidate tp INT64_MAX q \<longleftrightarrow> q \<le> tp"
proof -
  have a: "uint tp < 4294967296" using uint_lt2p [of tp] by simp
  have b: "0 \<le> uint q" by simp
  have "uint tp - uint q \<le> 9223372036854775807"
    using a b by linarith
  then show ?thesis
    by (simp add: candidate_def word_le_def INT64_MAX_def)
qed

lemma three_periods_eval:
  "parse_manifest_periods 15 default_context three_periods =
     Inr (default_context\<lparr>period_duration := 10, period_start := 10,
            media_presentation_duration := 10\<rparr>, 2)"
  by (simp add: parse_manifest_periods_def three_periods_def default_context_def
        set_period_def INT64_MAX_def Let_def)

section \<open>The duration parser\<close>

lemma loop_tokens:
  "get_duration_loop sc cast st s =
     (case tokens sc s of
        None \<Rightarrow> 0
      | Some fs \<Rightarrow> total_seconds (foldl (\<lambda>st (v, ty). store_field ty (cast v) st) st fs))"
proof (induction sc cast st s rule: get_duration_loop.induct)
  case (1 sc cast st)
  show ?case by simp
next
  case (2 sc cast st c ptr)
  show ?case
  proof (cases "c = CHR ''P'' \<or> c = CHR ''T''")
    case True
    with "2.IH"(1) show ?thesis by simp
  next
    case False
    show ?thesis
    proof (cases "sscanf_lf_c sc (c # ptr)")
      case None
      with False show ?thesis by simp
    next
      case (Some r)
      obtain v ty n where r: "r = (v, ty, n)" by (cases r)
      from "2.IH"(2) [OF False Some, of v "(ty, n)" ty n] r
      have IH: "get_duration_loop sc cast (store_field ty (cast v) st) (drop n (c # ptr)) =
        (case tokens sc (drop n (c # ptr)) of
           None \<Rightarrow> 0
         | Some fs \<Rightarrow> total_seconds
             (foldl (\<lambda>st (v, ty). store_field ty (cast v) st) (store_field ty (cast v) st) fs))"
        by simp
      show ?thesis
        using False Some r IH
        by (cases "tokens sc (drop n (c # ptr))") (simp_all del: drop.simps)
    qed
  qed
qed

lemma field_value_snoc:
  "field_value u (fs @ [(v, ty)]) = (if ty = u then Some v else field_value u fs)"
  by (simp add: field_value_def)

lemma field_value_Nil [simp]: "field_value u [] = None"
  by (simp add: field_value_def)

lemma foldl_store_fields:
  "days (foldl (\<lambda>st (v, ty). store_field ty (cast v) st) st fs) =
     (case field_value CHR ''D'' fs of None \<Rightarrow> days st | Some v \<Rightarrow> cast v)"
  "hours (foldl (\<lambda>st (v, ty). store_field ty (cast v) st) st fs) =
     (case field_value CHR ''H'' fs of None \<Rightarrow> hours st | Some v \<Rightarrow> cast v)"
  "mins (foldl (\<lambda>st (v, ty). store_field ty (cast v) st) st fs) =
     (case field_value CHR ''M'' fs of None \<Rightarrow> mins st | Some v \<Rightarrow> cast v)"
  "secs (foldl (\<lambda>st (v, ty). store_field ty (cast v) st) st fs) =
     (case field_value CHR ''S'' fs of None \<Rightarrow> secs st | Some v \<Rightarrow> cast v)"
proof (induction fs rule: rev_induct)
  case Nil
  {
    case 1 show ?case by simp
  next
    case 2 show ?case by simp
  next
    case 3 show ?case by simp
  next
    case 4 show ?case by simp
  }
next
  case (snoc x fs)
  obtain v ty where x: "x = (v, ty)" by (cases x)
  {
    case 1 show ?case using snoc.IH(1) by (simp add: x field_value_snoc store_field_def)
  next
    case 2 show ?case using snoc.IH(2) by (simp add: x field_value_snoc store_field_def)
  next
    case 3 show ?case using snoc.IH(3) by (simp add: x field_value_snoc store_field_def)
  next
    case 4 show ?case using snoc.IH(4) by (simp add: x field_value_snoc store_field_def)
  }
qed

lemma integer_scanner_eval:
  "sscanf_lf_c integer_scanner s = scan_digits 0 0 s"
  by (simp add: integer_scanner.rep_eq)

lemma tokens_examples:
  "tokens integer_scanner ''P1DT2H3M4S'' =
     Some [(1, CHR ''D''), (2, CHR ''H''), (3, CHR ''M''), (4, CHR ''S'')]"
  "tokens integer_scanner ''P1DT7X'' = Some [(1, CHR ''D''), (7, CHR ''X'')]"
  "tokens integer_scanner ''P1DT5'' = None"
  "tokens integer_scanner ''P1DTxS'' = None"
  by (simp_all add: integer_scanner_eval)

section \<open>The refresh paths\<close>

lemma same_but_media_params_refl [simp]: "same_but_media_params r r"
  by (simp add: same_but_media_params_def)

lemma move_video_params_same: "same_but_media_params dest (snd (move_video_params src dest))"
  by (simp add: move_video_params_def same_but_media_params_def)

lemma move_audio_params_same: "same_but_media_params dest (snd (move_audio_params src dest))"
  by (simp add: move_audio_params_def same_but_media_params_def)

lemma move_video_params_changed:
  "fst (move_video_params src dest) \<noteq> 0 \<Longrightarrow>
   fst (move_video_params src dest) = AVERROR_INPUT_CHANGED"
proof -
  have "fst (move_video_params src dest) = 0
      \<or> fst (move_video_params src dest) = AVERROR_INPUT_CHANGED"
    by (simp add: move_video_params_def)
  then show "fst (move_video_params src dest) \<noteq> 0 \<Longrightarrow>
      fst (move_video_params src dest) = AVERROR_INPUT_CHANGED"
    by blast
qed

lemma move_audio_params_changed:
  "fst (move_audio_params src dest) \<noteq> 0 \<Longrightarrow>
   fst (move_audio_params src dest) = AVERROR_INPUT_CHANGED"
proof -
  have "fst (move_audio_params src dest) = 0
      \<or> fst (move_audio_params src dest) = AVERROR_INPUT_CHANGED"
    by (simp add: move_audio_params_def)
  then show "fst (move_audio_params src dest) \<noteq> 0 \<Longrightarrow>
      fst (move_audio_params src dest) = AVERROR_INPUT_CHANGED"
    by blast
qed

lemma move_video_params_overwrites:
  "snd (move_video_params src dest) =
     (if width src \<noteq> width dest \<or> height src \<noteq> height dest
        then dest\<lparr>width := width src, height := height src\<rparr>
      else if av_cmp_q (framerate src) (framerate dest) \<noteq> 0
        then dest\<lparr>framerate := framerate src\<rparr>
      else if codecs src \<noteq> None \<and> codecs dest \<noteq> None \<and> codecs src \<noteq> codecs dest
        then dest\<lparr>codecs := codecs src\<rparr>
      else if scantype src \<noteq> None \<and> scantype dest \<noteq> None \<and> scantype src \<noteq> scantype dest
        then dest\<lparr>scantype := scantype src\<rparr>
      else dest)"
  by (simp add: move_video_params_def)

lemma move_audio_params_overwrites:
  "snd (move_audio_params src dest) =
     (if codecs src \<noteq> None \<and> codecs dest \<noteq> None \<and> codecs src \<noteq> codecs dest
        then dest\<lparr>codecs := codecs src\<rparr>
      else dest)"
  by (simp add: move_audio_params_def)

lemma refresh_manifest_parse_failed:
  assumes "fst (refreshed parse c target) \<noteq> 0"
  shows "refresh_manifest parse now c target =
           refresh_finish (fst (refreshed parse c target)) (snd (refreshed parse c target))
             (base_url c) (videos c) (audios c) (subtitles c)"
  using assms by (simp add: refresh_manifest_def refreshed_def Let_def split_beta)

lemma refresh_manifest_parsed:
  assumes "fst (refreshed parse c target) = 0"
  shows "refresh_manifest parse now c target =
     (case refresh_videos now (snd (refreshed parse c target)) (videos c) target of
        Inl e \<Rightarrow> (e, snd (refreshed parse c target))
      | Inr (ret1, videos1) \<Rightarrow>
          if ret1 \<noteq> 0
          then refresh_finish ret1 (snd (refreshed parse c target)) (base_url c) videos1
                 (audios c) (subtitles c)
          else
            (case refresh_audios now (snd (refreshed parse c target)) (audios c) target of
               Inl e \<Rightarrow> (e, snd (refreshed parse c target))
             | Inr (ret2, audios1) \<Rightarrow>
                 refresh_finish ret2 (snd (refreshed parse c target)) (base_url c) videos1
                   audios1 (subtitles c)))"
  using assms unfolding refreshed_def
  by (simp add: refresh_manifest_def Let_def split_beta)

lemma restored_self: "restored_but_media_params c (c2\<lparr>base_url := b, subtitles := subtitles c,
    audios := audios c, videos := videos c\<rparr>) target"
  by (simp add: restored_but_media_params_def)

lemma restored_video:
  "i < length (videos c) \<Longrightarrow> same_but_media_params (videos c ! i) r \<Longrightarrow>
   restored_but_media_params c (c2\<lparr>base_url := b, subtitles := subtitles c,
      audios := audios c, videos := (videos c)[i := r]\<rparr>) (Video i)"
  by (simp add: restored_but_media_params_def nth_list_update)

lemma restored_audio:
  "i < length (audios c) \<Longrightarrow> same_but_media_params (audios c ! i) r \<Longrightarrow>
   restored_but_media_params c (c2\<lparr>base_url := b, subtitles := subtitles c,
      audios := (audios c)[i := r], videos := videos c\<rparr>) (Audio i)"
  by (simp add: restored_but_media_params_def nth_list_update)

lemma failed_check_video:
  assumes i: "i < length (videos c)"
    and fail: "fst (refresh_manifest parse now c (Video i)) \<noteq> 0"
    and parsed: "fst (refreshed parse c (Video i)) = 0"
    and new: "find_by_id (videos (snd (refreshed parse c (Video i)))) (videos c ! i) = Some new"
  shows "refresh_manifest parse now c (Video i) =
           refresh_finish AVERROR_INPUT_CHANGED (snd (refreshed parse c (Video i))) (base_url c)
             ((videos c)[i := snd (move_video_params new (videos c ! i))])
             (audios c) (subtitles c)"
proof -
  let ?c2 = "snd (refreshed parse c (Video i))"
  let ?m = "move_video_params new (videos c ! i)"
  note rm = refresh_manifest_parsed [OF parsed, of now]
  have aud: "refresh_audios now ?c2 (audios c) (Video i) = Inr (0, audios c)"
    by (simp add: refresh_audios_def)
  have changed: "fst ?m \<noteq> 0"
  proof
    assume "fst ?m = 0"
    then have "refresh_videos now ?c2 (videos c) (Video i) =
                 Inr (0, (videos c)[i := splice_video now ?c2 new (snd ?m)])"
      using i new by (simp add: refresh_videos_def split_beta Let_def)
    with fail aud show False
      by (simp add: rm refresh_finish_def)
  qed
  then have rv: "refresh_videos now ?c2 (videos c) (Video i) =
               Inr (fst ?m, (videos c)[i := snd ?m])"
    using i new by (simp add: refresh_videos_def split_beta Let_def)
  have "refresh_manifest parse now c (Video i) =
          refresh_finish (fst ?m) ?c2 (base_url c) ((videos c)[i := snd ?m])
            (audios c) (subtitles c)"
    using changed by (simp add: rm rv)
  then show ?thesis
    by (simp only: move_video_params_changed [OF changed])
qed

lemma failed_check_audio:
  assumes i: "i < length (audios c)"
    and fail: "fst (refresh_manifest parse now c (Audio i)) \<noteq> 0"
    and parsed: "fst (refreshed parse c (Audio i)) = 0"
    and new: "find_by_id (audios (snd (refreshed parse c (Audio i)))) (audios c ! i) = Some new"
  shows "refresh_manifest parse now c (Audio i) =
           refresh_finish AVERROR_INPUT_CHANGED (snd (refreshed parse c (Audio i))) (base_url c)
             (videos c) ((audios c)[i := snd (move_audio_params new (audios c ! i))])
             (subtitles c)"
proof -
  let ?c2 = "snd (refreshed parse c (Audio i))"
  let ?m = "move_audio_params new (audios c ! i)"
  note rm = refresh_manifest_parsed [OF parsed, of now]
  have vid: "refresh_videos now ?c2 (videos c) (Audio i) = Inr (0, videos c)"
    by (simp add: refresh_videos_def)
  have changed: "fst ?m \<noteq> 0"
  proof
    assume "fst ?m = 0"
    then have "refresh_audios now ?c2 (audios c) (Audio i) =
                 Inr (0, (audios c)[i := splice_audio now ?c2 new (snd ?m)])"
      using i new by (simp add: refresh_audios_def split_beta Let_def)
    with fail vid show False
      by (simp add: rm refresh_finish_def)
  qed
  then have ra: "refresh_audios now ?c2 (audios c) (Audio i) =
               Inr (fst ?m, (audios c)[i := snd ?m])"
    using i new by (simp add: refresh_audios_def split_beta Let_def)
  have "refresh_manifest parse now c (Audio i) =
          refresh_finish (fst ?m) ?c2 (base_url c) (videos c) ((audios c)[i := snd ?m])
            (subtitles c)"
    by (simp add: rm vid ra)
  then show ?thesis
    by (simp only: move_audio_params_changed [OF changed])
qed

lemma parsed_subtitle_refresh:
  assumes "fst (refreshed parse c (Subtitle i)) = 0"
  shows "fst (refresh_manifest parse now c (Subtitle i)) = 0"
  by (simp add: refresh_manifest_parsed [OF assms] refresh_videos_def refresh_audios_def
        refresh_finish_def)

lemmas refresh_eval =
  refresh_manifest_def refresh_videos_def refresh_audios_def refresh_finish_def
  cleared_def get_curr_timepoint_def target_rep_def move_video_params_def av_cmp_q_def
  live_context_def live_video_def default_context_def zero_representation_def
  AVERROR_INPUT_CHANGED_def AVERROR_INVALIDDATA_def

text \<open>
  The path of a refreshed manifest without the id of the driven representation: the loop
  leaves with \<^verbatim>\<open>return AVERROR_INVALIDDATA\<close> instead of \<^verbatim>\<open>goto finish\<close>, and the context
  keeps the refreshed list.
\<close>

lemma refresh_manifest_missing_representation:
  "fst (refresh_manifest parse_renamed 0 live_context (Video 0)) = AVERROR_INVALIDDATA
   \<and> map id_r (videos live_context) = [Some ''v1'']
   \<and> map id_r (videos (snd (refresh_manifest parse_renamed 0 live_context (Video 0)))) =
        [Some ''v2'']"
  by (simp add: refresh_eval parse_renamed_def)

section \<open>Claims about the timeline walks\<close>

text \<open>
  C1 (as stated, refuted).  The claim lets the walk return the running start time when
  \<open>num\<close> reaches the target itself.  With the offset correction on (the default) and a
  representation whose \<^verbatim>\<open>first_seq_no\<close> is 1, the code walks to \<open>target - first_seq_no\<close>:
  on the two-entry timeline \<^verbatim>\<open>S{t=0,d=2,r=1}, S{t=10,d=2,r=0}\<close> target 1 yields 0, where the
  reference walk at target 1 yields 2.
\<close>

theorem C1_counterexample:
  "get_segment_start_time_based_on_timeline default_context
     (zero_representation\<lparr>timelines := discontinuity_timeline, first_seq_no := 1\<rparr>) 1 = 0
   \<and> spec_segment_start_time discontinuity_timeline 1 = 2"
  by (simp add: get_segment_start_time_based_on_timeline_def default_context_def
        zero_representation_def discontinuity_timeline_def gst_entry_def
        spec_segment_start_time_def)

text \<open>
  C1 (amended).  For every representation, \<^verbatim>\<open>get_segment_start_time_based_on_timeline\<close>
  equals the reference walk of the specification applied to the normalized target: the
  target minus \<^verbatim>\<open>first_seq_no\<close> when the offset correction is on and the target is not
  below \<^verbatim>\<open>first_seq_no\<close>, the target itself otherwise.  (The walk returns the running
  start time when \<open>num\<close> reaches that target, an entry with \<open>repeat = - 1\<close> met before
  yields \<open>duration * target\<close>, and a target beyond the last segment yields the running start
  time after the last entry.)  For the two-entry timeline of scenario 3 with
  \<^verbatim>\<open>first_seq_no = 0\<close>, targets 0, 1, 2 yield 0, 2, 10 under both settings of the option.
\<close>

theorem C1_start_time_is_reference_walk:
  "get_segment_start_time_based_on_timeline c pls target =
     spec_segment_start_time (timelines pls) (normalized_target c pls target)
   \<and> map (get_segment_start_time_based_on_timeline c
             (zero_representation\<lparr>timelines := discontinuity_timeline\<rparr>)) [0, 1, 2] = [0, 2, 10]"
proof -
  have walk: "get_segment_start_time_based_on_timeline c r t =
        spec_segment_start_time (timelines r) (normalized_target c r t)" for c r t
    by (cases "timelines r")
       (simp_all add: get_segment_start_time_based_on_timeline_def spec_segment_start_time_def
          normalized_target_def gst_walk_spec Let_def del: spec_walk_from.simps(2))
  have norm: "normalized_target c (zero_representation\<lparr>timelines := discontinuity_timeline\<rparr>) t = t"
    for t
    by (simp add: normalized_target_def zero_representation_def)
  show ?thesis
    by (simp add: walk norm spec_start_discontinuity)
qed

text \<open>C1, an instance: with the offset correction on and \<^verbatim>\<open>first_seq_no = 1\<close>, target 3 is walked
  as 2 and starts at 10.\<close>

theorem C1_witness:
  "get_segment_start_time_based_on_timeline default_context
     (zero_representation\<lparr>timelines := discontinuity_timeline, first_seq_no := 1\<rparr>) 3 = 10"
  using C1_start_time_is_reference_walk [of default_context
     "zero_representation\<lparr>timelines := discontinuity_timeline, first_seq_no := 1\<rparr>" 3]
  by (simp add: normalized_target_def default_context_def zero_representation_def
        spec_start_discontinuity)

text \<open>
  C2 (as stated, refuted).  On the timeline of scenario 3 with \<^verbatim>\<open>first_seq_no = 0\<close>,
  sequence number 0 starts at time 0, and \<^verbatim>\<open>calc_next_seg_no_from_timelines\<close> at time 0
  returns 1, not 0, with the offset correction on and off: the function looks for the
  first segment that starts strictly after the query time.
\<close>

theorem C2_counterexample:
  "calc_next_seg_no_from_timelines default_context
     (zero_representation\<lparr>timelines := discontinuity_timeline, last_seq_no := 2\<rparr>)
     (get_segment_start_time_based_on_timeline default_context
        (zero_representation\<lparr>timelines := discontinuity_timeline, last_seq_no := 2\<rparr>) 0) = 1
   \<and> calc_next_seg_no_from_timelines
     (default_context\<lparr>use_timeline_segment_offset_correction := False\<rparr>)
     (zero_representation\<lparr>timelines := discontinuity_timeline, last_seq_no := 2\<rparr>)
     (get_segment_start_time_based_on_timeline
        (default_context\<lparr>use_timeline_segment_offset_correction := False\<rparr>)
        (zero_representation\<lparr>timelines := discontinuity_timeline, last_seq_no := 2\<rparr>) 0) = 1"
  by (simp add: get_segment_start_time_based_on_timeline_def
        calc_next_seg_no_from_timelines_def default_context_def
        zero_representation_def discontinuity_timeline_def gst_entry_def cns_entry_def
        cns_repeat.simps [of _ _ 0])

text \<open>
  C2 (amended).  Let the timeline be well formed (positive durations, repeat counts at least
  0, explicit start times not before the end of the previous entry) and let the offset
  correction be on or \<^verbatim>\<open>first_seq_no\<close> be 0.  Then for every sequence number \<open>N\<close> between
  \<^verbatim>\<open>first_seq_no\<close> and the last sequence number of the timeline (\<^verbatim>\<open>calc_max_seg_no\<close>),
  \<^verbatim>\<open>calc_next_seg_no_from_timelines\<close> queried one tick before the start time of \<open>N\<close>
  returns \<open>N\<close>; queried at the start time of \<open>N\<close> it returns \<open>N + 1\<close>, and \<open>- 1\<close> when \<open>N\<close> is
  the last sequence number.
\<close>

theorem C2_round_trip_one_tick_before:
  assumes ok: "timeline_ok 0 (timelines pls)"
    and style: "timelines pls \<noteq> []" "fragments pls = []"
    and opt: "use_timeline_segment_offset_correction c \<or> first_seq_no pls = 0"
    and range: "first_seq_no pls \<le> N" "N \<le> calc_max_seg_no now pls c"
  shows "calc_next_seg_no_from_timelines c pls
           (get_segment_start_time_based_on_timeline c pls N - 1) = N
       \<and> calc_next_seg_no_from_timelines c pls
           (get_segment_start_time_based_on_timeline c pls N) =
             (if N < calc_max_seg_no now pls c then N + 1 else - 1)"
proof -
  let ?segs = "segment_starts (timelines pls) 0"
  let ?k = "nat (N - first_seq_no pls)"
  have last: "calc_max_seg_no now pls c = first_seq_no pls + int (length ?segs) - 1"
    by (rule calc_max_seg_no_timeline [OF ok style])
  from range last have k: "?k < length ?segs" by linarith
  from range have Nk: "N = first_seq_no pls + int ?k" by simp
  have target: "(if use_timeline_segment_offset_correction c \<and> first_seq_no pls \<le> N
                 then N - first_seq_no pls else N) = int ?k"
    using opt range by auto
  have start: "get_segment_start_time_based_on_timeline c pls N = ?segs ! ?k"
    using style(1) gst_walk_position [OF ok k]
    by (simp add: get_segment_start_time_based_on_timeline_def target)
  have shift: "(if use_timeline_segment_offset_correction c then int j + first_seq_no pls
                else int j) = first_seq_no pls + int j" for j
    using opt by auto
  have before: "calc_next_seg_no_from_timelines c pls (?segs ! ?k - 1) = N"
    using Nk shift [of ?k]
    by (simp only: calc_next_seg_no_from_timelines_def
          cns_walk_before_position [OF ok k] option.case)
  have lt: "N < calc_max_seg_no now pls c \<longleftrightarrow> Suc ?k < length ?segs"
    using range last by linarith
  have at: "calc_next_seg_no_from_timelines c pls (?segs ! ?k) =
              (if N < calc_max_seg_no now pls c then N + 1 else - 1)"
  proof (cases "Suc ?k < length ?segs")
    case True
    have shift': "(if use_timeline_segment_offset_correction c
                   then int ?k + 1 + first_seq_no pls else int ?k + 1) =
                  first_seq_no pls + (int ?k + 1)"
      using opt by auto
    have "calc_next_seg_no_from_timelines c pls (?segs ! ?k) = first_seq_no pls + (int ?k + 1)"
      using True shift'
      by (simp only: calc_next_seg_no_from_timelines_def cns_walk_at_position [OF ok k]
            if_True option.case)
    with True lt Nk show ?thesis by simp
  next
    case False
    then show ?thesis
      using lt by (simp add: calc_next_seg_no_from_timelines_def cns_walk_at_position [OF ok k])
  qed
  show ?thesis
    unfolding start using before at by simp
qed

text \<open>C2, an instance: the timeline of scenario 3 numbered from 5, at sequence number 6.\<close>

theorem C2_witness:
  "calc_next_seg_no_from_timelines default_context
     (zero_representation\<lparr>timelines := discontinuity_timeline, first_seq_no := 5\<rparr>)
     (get_segment_start_time_based_on_timeline default_context
        (zero_representation\<lparr>timelines := discontinuity_timeline, first_seq_no := 5\<rparr>) 6 - 1) = 6
   \<and> calc_next_seg_no_from_timelines default_context
     (zero_representation\<lparr>timelines := discontinuity_timeline, first_seq_no := 5\<rparr>)
     (get_segment_start_time_based_on_timeline default_context
        (zero_representation\<lparr>timelines := discontinuity_timeline, first_seq_no := 5\<rparr>) 6) = 7"
proof -
  let ?pls = "zero_representation\<lparr>timelines := discontinuity_timeline, first_seq_no := 5\<rparr>"
  have ok: "timeline_ok 0 (timelines ?pls)"
    by (simp add: zero_representation_def discontinuity_timeline_def entry_end_def entry_start_def)
  have style: "timelines ?pls \<noteq> []" "fragments ?pls = []"
    by (simp_all add: zero_representation_def discontinuity_timeline_def)
  have opt: "use_timeline_segment_offset_correction default_context \<or> first_seq_no ?pls = 0"
    by (simp add: default_context_def)
  have last: "calc_max_seg_no 0 ?pls default_context = 7"
    by (simp add: calc_max_seg_no_def zero_representation_def discontinuity_timeline_def)
  have range1: "first_seq_no ?pls \<le> 6"
    by (simp add: zero_representation_def)
  have range2: "6 \<le> calc_max_seg_no 0 ?pls default_context"
    unfolding last by simp
  note range = range1 range2
  show ?thesis
    using C2_round_trip_one_tick_before [OF ok style opt range] by (simp add: last)
qed

text \<open>
  C9.  If no segment position of the timeline has a running start time greater than the
  query time (for a well-formed timeline this holds when the query time is at or beyond the
  end of the last entry, see \<open>timeline_ok_before_end\<close>), then
  \<^verbatim>\<open>calc_next_seg_no_from_timelines\<close> returns the sentinel \<open>- 1\<close>; and when that query is the
  one of \<^verbatim>\<open>calc_cur_seg_no\<close> for a live timeline representation, \<^verbatim>\<open>calc_cur_seg_no\<close>
  returns \<^verbatim>\<open>first_seq_no\<close>.
\<close>

theorem C9_sentinel_past_the_end:
  assumes "\<forall>p \<in> set (segment_starts (timelines pls) 0). p \<le> cur_time"
  shows "calc_next_seg_no_from_timelines c pls cur_time = - 1
       \<and> (if is_live c \<and> fragments pls = [] \<and> timelines pls \<noteq> []
              \<and> cur_time = get_segment_start_time_based_on_timeline c pls 0xFFFFFFFF
                             - 60 * fragment_timescale pls
           then calc_cur_seg_no now c pls = first_seq_no pls else True)"
proof -
  from assms have "first_after cur_time (segment_starts (timelines pls) 0) = None"
    by (simp add: first_after_None)
  then have sentinel: "calc_next_seg_no_from_timelines c pls cur_time = - 1"
    by (simp add: calc_next_seg_no_from_timelines_def cns_walk_char)
  have "calc_cur_seg_no now c pls = first_seq_no pls"
    if "is_live c" "fragments pls = []" "timelines pls \<noteq> []"
       "cur_time = get_segment_start_time_based_on_timeline c pls 0xFFFFFFFF
                     - 60 * fragment_timescale pls"
    using that sentinel by (simp add: calc_cur_seg_no_def Let_def)
  with sentinel show ?thesis by simp
qed

text \<open>C9, an instance: one segment of 100 ticks at timescale 1, queried at 100 - 60 = 40.\<close>

theorem C9_witness:
  "calc_next_seg_no_from_timelines (default_context\<lparr>is_live := True\<rparr>)
     (zero_representation\<lparr>timelines := long_segment_timeline, first_seq_no := 7,
        fragment_timescale := 1\<rparr>) 40 = - 1
   \<and> calc_cur_seg_no 0 (default_context\<lparr>is_live := True\<rparr>)
     (zero_representation\<lparr>timelines := long_segment_timeline, first_seq_no := 7,
        fragment_timescale := 1\<rparr>) = 7"
proof -
  let ?c = "default_context\<lparr>is_live := True\<rparr>"
  let ?pls = "zero_representation\<lparr>timelines := long_segment_timeline, first_seq_no := 7,
        fragment_timescale := 1\<rparr>"
  have pos: "\<forall>p \<in> set (segment_starts (timelines ?pls) 0). p \<le> 40"
    by (simp add: zero_representation_def long_segment_timeline_def entry_starts_def
          entry_start_def)
  have q: "get_segment_start_time_based_on_timeline ?c ?pls 0xFFFFFFFF
             - 60 * fragment_timescale ?pls = 40"
    by (simp add: get_segment_start_time_based_on_timeline_def zero_representation_def
          default_context_def long_segment_timeline_def gst_entry_def gst_repeat_nonpos)
  have live: "is_live ?c" "fragments ?pls = []" "timelines ?pls \<noteq> []"
    by (simp_all add: zero_representation_def long_segment_timeline_def)
  have f: "first_seq_no ?pls = 7" by (simp add: zero_representation_def)
  show ?thesis
    using C9_sentinel_past_the_end [OF pos, of ?c 0] live q f by simp
qed


section \<open>Claims about the live sequence number\<close>

text \<open>
  C5 (as stated, refuted).  In the wall-clock branch (no presentation time offset, no
  publish time) the code does not look at \<^verbatim>\<open>time_shift_buffer_depth\<close>: with a depth of 30,
  a delay of 0 and a computed value 51 above \<^verbatim>\<open>first_seq_no = 1\<close> it still subtracts 1.
\<close>

theorem C5_counterexample:
  "calc_cur_seg_no 100 (default_context\<lparr>is_live := True, time_shift_buffer_depth := 30\<rparr>)
     (zero_representation\<lparr>first_seq_no := 1, fragment_duration := 2, fragment_timescale := 1\<rparr>)
     = 50
   \<and> computed_seg_no 100 (default_context\<lparr>is_live := True, time_shift_buffer_depth := 30\<rparr>)
     (zero_representation\<lparr>first_seq_no := 1, fragment_duration := 2, fragment_timescale := 1\<rparr>)
     = 51
   \<and> time_shift_buffer_depth (default_context\<lparr>is_live := True, time_shift_buffer_depth := 30\<rparr>) \<noteq> 0"
  by code_simp

text \<open>
  C5 (amended).  With \<^verbatim>\<open>fetch_completed_segments_only\<close> on, \<^verbatim>\<open>calc_cur_seg_no\<close> for a live
  template+duration representation subtracts exactly 1 from the computed sequence number
  if and only if the computed value is greater than \<^verbatim>\<open>first_seq_no\<close>, there is no
  presentation time offset, \<^verbatim>\<open>suggested_presentation_delay\<close> is 0 and, in the publish-time
  branch (\<^verbatim>\<open>publish_time > 0\<close> and \<^verbatim>\<open>availability_start_time = 0\<close>) only,
  \<^verbatim>\<open>time_shift_buffer_depth\<close> is 0 as well; otherwise the computed value is returned
  unmodified.
\<close>

theorem C5_fetch_completed_adjustment:
  assumes "live_template_duration c pls" and "fetch_completed_segments_only c"
  shows "calc_cur_seg_no now c pls =
     (if computed_seg_no now c pls > first_seq_no pls
         \<and> suggested_presentation_delay c = 0
         \<and> presentation_timeoffset pls = 0
         \<and> (if publish_time c > 0 \<and> availability_start_time c = 0
             then time_shift_buffer_depth c = 0 else True)
      then computed_seg_no now c pls - 1 else computed_seg_no now c pls)"
proof -
  from assms(1) have live: "is_live c" and fr: "fragments pls = []" and tl: "timelines pls = []"
    and fd: "fragment_duration pls \<noteq> 0"
    by (simp_all add: live_template_duration_def)
  note fetch = assms(2)
  show ?thesis
  proof (cases "presentation_timeoffset pls \<noteq> 0")
    case True
    then show ?thesis
      by (simp add: calc_cur_seg_no_def computed_seg_no_def live fr tl fd Let_def)
  next
    case pto: False
    note defs = calc_cur_seg_no_def computed_seg_no_def live fr tl fd fetch Let_def
    consider (pub) "0 < publish_time c" "availability_start_time c = 0"
      | (nopub) "\<not> 0 < publish_time c"
      | (avail) "availability_start_time c \<noteq> 0"
      by blast
    then show ?thesis
    proof cases
      case pub
      show ?thesis
      proof (cases "min_buffer_time c = 0")
        case True
        with pub pto show ?thesis
          by (cases "time_shift_buffer_depth c = 0"; cases "suggested_presentation_delay c = 0")
             (simp_all add: defs)
      next
        case False
        then have "0 < min_buffer_time c" by (simp add: word_gt_0)
        with False pub pto show ?thesis
          by (cases "time_shift_buffer_depth c = 0"; cases "suggested_presentation_delay c = 0")
             (simp_all add: defs)
      qed
    next
      case nopub
      with pto show ?thesis
        by (cases "suggested_presentation_delay c = 0") (simp_all add: defs)
    next
      case avail
      with pto show ?thesis
        by (cases "suggested_presentation_delay c = 0") (simp_all add: defs)
    qed
  qed
qed

text \<open>C5, an instance in the publish-time branch: computed 52, returned 51.\<close>

theorem C5_witness:
  "calc_cur_seg_no 100 (default_context\<lparr>is_live := True, publish_time := 100\<rparr>)
     (zero_representation\<lparr>first_seq_no := 1, fragment_duration := 2, fragment_timescale := 1\<rparr>)
     = 51"
proof -
  let ?c = "default_context\<lparr>is_live := True, publish_time := 100\<rparr>"
  let ?pls = "zero_representation\<lparr>first_seq_no := 1, fragment_duration := 2,
                 fragment_timescale := 1\<rparr>"
  have h1: "live_template_duration ?c ?pls"
    by (simp add: live_template_duration_def default_context_def zero_representation_def)
  have h2: "fetch_completed_segments_only ?c"
    by (simp add: default_context_def)
  have comp: "computed_seg_no 100 ?c ?pls = 52"
    by code_simp
  have sel: "first_seq_no ?pls = 1" "presentation_timeoffset ?pls = 0"
    "suggested_presentation_delay ?c = 0" "publish_time ?c = 100"
    "availability_start_time ?c = 0" "time_shift_buffer_depth ?c = 0"
    by (simp_all add: default_context_def zero_representation_def)
  show ?thesis
    using C5_fetch_completed_adjustment [OF h1 h2, of 100]
    unfolding comp sel by simp
qed

section \<open>Claims about the byte stream, the gating and the seek\<close>

text \<open>
  C6 (as stated, refuted).  A body read that returns zero bytes on a representation with
  \<^verbatim>\<open>cur_seq_no = 4 < last_seq_no = 9\<close> whose \<^verbatim>\<open>is_restart_needed\<close> is already set leaves
  \<^verbatim>\<open>cur_seq_no\<close> at 4.
\<close>

theorem C6_counterexample:
  "in_body (zero_representation\<lparr>input := True, cur_seg := Some seg0, cur_seq_no := 4,
              last_seq_no := 9, is_restart_needed := True\<rparr>)
   \<and> avio_read plain_externals 4096 = 0
   \<and> cur_seq_no (snd (read_data plain_externals default_context
        (zero_representation\<lparr>input := True, cur_seg := Some seg0, cur_seq_no := 4,
              last_seq_no := 9, is_restart_needed := True\<rparr>) 4096)) = 4"
  by (simp add: in_body_def read_data_def read_from_url_def plain_externals_def
        zero_representation_def default_context_def seg0_def)

text \<open>
  C6 (amended).  When a body read from the current segment returns zero bytes,
  \<^verbatim>\<open>read_data\<close> returns 0 and: if the presentation is live or \<^verbatim>\<open>cur_seq_no < last_seq_no\<close>,
  it sets \<^verbatim>\<open>is_restart_needed\<close> and increments \<^verbatim>\<open>cur_seq_no\<close> by exactly one unless
  \<^verbatim>\<open>is_restart_needed\<close> was already set, in which case \<^verbatim>\<open>cur_seq_no\<close> is unchanged;
  otherwise the representation is unchanged and the zero propagates.  So
  \<^verbatim>\<open>cur_seq_no\<close> increases by exactly one per exhausted segment, however often the
  exhausted segment is read before the restart.
\<close>

theorem C6_zero_byte_read:
  assumes body: "in_body v"
    and zero: "fst (read_from_url ext v (the (cur_seg v)) buf_size) = 0"
  shows "read_data ext c v buf_size =
     (0, if is_live c \<or> cur_seq_no v < last_seq_no v
         then v\<lparr>cur_seq_no := (if is_restart_needed v then cur_seq_no v else cur_seq_no v + 1),
                is_restart_needed := True\<rparr>
         else v)"
proof -
  from body obtain seg where seg: "cur_seg v = Some seg"
    and init: "\<not> init_sec_buf_read_offset v < init_sec_data_len v"
    by (auto simp: in_body_def)
  from zero seg have r: "read_from_url ext v seg buf_size = (0, v)"
    by (auto simp: read_from_url_def Let_def)
  show ?thesis
    by (simp add: read_data_def init seg r)
qed

text \<open>C6, an instance: the first zero-byte read on segment 4 of 9 moves on to segment 5.\<close>

theorem C6_witness:
  "read_data plain_externals default_context
     (zero_representation\<lparr>input := True, cur_seg := Some seg0, cur_seq_no := 4,
        last_seq_no := 9\<rparr>) 4096 =
   (0, zero_representation\<lparr>input := True, cur_seg := Some seg0, cur_seq_no := 5,
        last_seq_no := 9, is_restart_needed := True\<rparr>)"
proof -
  let ?v = "zero_representation\<lparr>input := True, cur_seg := Some seg0, cur_seq_no := 4,
        last_seq_no := 9\<rparr>"
  have body: "in_body ?v"
    by (simp add: in_body_def zero_representation_def)
  have zero: "fst (read_from_url plain_externals ?v (the (cur_seg ?v)) 4096) = 0"
    by (simp add: read_from_url_def plain_externals_def)
  show ?thesis
    using C6_zero_byte_read [OF body zero, of default_context]
    by (simp add: zero_representation_def)
qed

text \<open>
  C7 (as stated, refuted).  A video representation is active at sequence number 10; the
  audio representation, disabled at sequence number 3, is wanted again.  After the gating
  step the audio representation is open and still at sequence number 3: the catch-up looks
  at the audio list only.
\<close>

theorem C7_counterexample:
  "map ctx (videos gating_example) = [True]
   \<and> map cur_seq_no (videos gating_example) = [10]
   \<and> map needed (audios gating_example) = [True]
   \<and> map ctx (audios gating_example) = [False]
   \<and> map ctx (audios (dash_read_packet_gating plain_externals gating_example)) = [True]
   \<and> map cur_seq_no (audios (dash_read_packet_gating plain_externals gating_example)) = [3]"
  by (simp add: gating_example_def dash_read_packet_gating_def recheck_discard_flags_def
        recheck_step_def needed_def plain_externals_def plain_reopen_def
        default_context_def zero_representation_def)

text \<open>
  C7 (amended).  When \<^verbatim>\<open>recheck_discard_flags\<close> re-enables a representation (it is needed
  and has no open parser), it resets the two read offsets and sets \<^verbatim>\<open>cur_seq_no\<close> to the
  maximum \<^verbatim>\<open>cur_seq_no\<close> over all representations of the list it was called with, that is of
  the same kind, active or not, the representation itself included, and then reopens the
  inner parser.  The gating of \<^verbatim>\<open>dash_read_packet\<close> runs it on each kind's list by itself.
\<close>

theorem C7_catch_up_same_kind:
  assumes "i < length p" and "needed (p ! i)" and "\<not> ctx (p ! i)"
  shows "recheck_step ext p i =
           p[i := snd (reopen_demux_for_component ext
                  ((p ! i)\<lparr>cur_seg_offset := 0, init_sec_buf_read_offset := 0,
                           cur_seq_no := Max (cur_seq_no ` set p)\<rparr>))]
       \<and> videos (dash_read_packet_gating ext c) = recheck_discard_flags ext (videos c)
       \<and> audios (dash_read_packet_gating ext c) = recheck_discard_flags ext (audios c)
       \<and> subtitles (dash_read_packet_gating ext c) = recheck_discard_flags ext (subtitles c)"
proof -
  let ?x = "(p ! i)\<lparr>cur_seg_offset := 0, init_sec_buf_read_offset := 0\<rparr>"
  let ?p1 = "p[i := ?x]"
  have len: "i < length ?p1" using assms(1) by simp
  have "map cur_seq_no ?p1 = map cur_seq_no p"
    by (rule map_cur_seq_no_update) simp
  then have img: "cur_seq_no ` set ?p1 = cur_seq_no ` set p"
    by (metis set_map)
  have own: "?p1 ! i = ?x" using assms(1) by simp
  have cu: "catch_up ?p1 i [0..<length ?p1] = p[i := ?x\<lparr>cur_seq_no := Max (cur_seq_no ` set p)\<rparr>]"
    unfolding catch_up_all [OF len] img own by simp
  then have cu': "catch_up ?p1 i [0..<length p] = p[i := ?x\<lparr>cur_seq_no := Max (cur_seq_no ` set p)\<rparr>]"
    by simp
  have step: "recheck_step ext p i =
           p[i := snd (reopen_demux_for_component ext
                  ((p ! i)\<lparr>cur_seg_offset := 0, init_sec_buf_read_offset := 0,
                           cur_seq_no := Max (cur_seq_no ` set p)\<rparr>))]"
    using assms by (simp add: recheck_step_def Let_def cu')
  show ?thesis
    using step by (simp add: dash_read_packet_gating_def Let_def)
qed

text \<open>C7, an instance: two representations of one kind, the second re-enabled at 3 while the
  first is at 10.\<close>

theorem C7_witness:
  "recheck_step plain_externals
     [zero_representation\<lparr>ctx := True, cur_seq_no := 10\<rparr>, zero_representation\<lparr>cur_seq_no := 3\<rparr>] 1 =
     [zero_representation\<lparr>ctx := True, cur_seq_no := 10\<rparr>, zero_representation\<lparr>ctx := True, cur_seq_no := 10\<rparr>]"
proof -
  let ?p = "[zero_representation\<lparr>ctx := True, cur_seq_no := 10\<rparr>, zero_representation\<lparr>cur_seq_no := 3\<rparr>]"
  have h: "1 < length ?p" "needed (?p ! 1)" "\<not> ctx (?p ! 1)"
    by (simp_all add: needed_def zero_representation_def)
  show ?thesis
    using C7_catch_up_same_kind [OF h, of plain_externals default_context]
    by (simp add: plain_externals_def plain_reopen_def zero_representation_def)
qed

section \<open>Claim about the seek\<close>

text \<open>
  C8 (as stated, refuted).  A VOD presentation, a seek without the byte flag to 10000 ms.
  The first video representation is a single fragment whose inner frame seek fails with
  \<open>- 1\<close>; the second is a template+duration representation for which the formula
  gives 6.  \<^verbatim>\<open>dash_read_seek\<close> returns \<open>- 1\<close> and the second representation keeps
  \<^verbatim>\<open>cur_seq_no = 0\<close>: the loops skip every representation after the first failure.
\<close>

theorem C8_counterexample:
  "0 AND AVSEEK_FLAG_BYTE = 0 \<and> \<not> is_live seek_example
   \<and> seeks_by_duration (videos seek_example ! 1)
   \<and> seek_pos plain_externals 1 10 0 = 10000
   \<and> map_option fst (dash_read_seek plain_externals seek_example 1 10 0) = Some (- 1)
   \<and> map_option (\<lambda>r. cur_seq_no (videos (snd r) ! 1))
        (dash_read_seek plain_externals seek_example 1 10 0) = Some 0
   \<and> first_seq_no (videos seek_example ! 1) +
       ((10000 * fragment_timescale (videos seek_example ! 1))
          sdiv fragment_duration (videos seek_example ! 1)) sdiv 1000 = 6"
  by (simp add: seek_example_def seeks_by_duration_def seek_pos_def dash_read_seek_def
        dash_seek_def plain_externals_def default_context_def zero_representation_def
        AVSEEK_FLAG_BYTE_def AVSEEK_FLAG_BACKWARD_def seg0_def signed_divide_int_def)

text \<open>
  C8 (amended).  If the request carries the byte-seek flag or the presentation is live,
  \<^verbatim>\<open>dash_read_seek\<close> fails with \<^verbatim>\<open>AVERROR(ENOSYS)\<close> and touches no representation.
  Otherwise it runs \<^verbatim>\<open>dash_seek\<close> on the video, audio and subtitle representations in this
  order until one returns non-zero:
  \<^item> it returns whenever no timeline entry has a \<^verbatim>\<open>repeat\<close> beyond the range of \<^verbatim>\<open>int\<close>;
  \<^item> \<^verbatim>\<open>dash_seek\<close> on a template+duration representation always returns, having set
    \<^verbatim>\<open>cur_seq_no = first_seq_no + ((seek_pos_msec * fragment_timescale) / fragment_duration) / 1000\<close>
    in \<^verbatim>\<open>int64_t\<close> arithmetic (and reset the offsets) before the inner parser is reopened;
    a disabled one is left in exactly that state and the result is 0;
  \<^item> when \<^verbatim>\<open>dash_read_seek\<close> returns, only the three lists of the context have changed and
    they have their lengths; a representation reached while all earlier ones returned 0 is
    what \<^verbatim>\<open>dash_seek\<close> made of it, and every representation after one that returned
    non-zero is untouched;
  \<^item> the result is 0 when every \<^verbatim>\<open>dash_seek\<close> returned 0, and otherwise the non-zero result
    of the first one that did not.

  The \<^verbatim>\<open>int64_t\<close> value is the one of the formula over the integers whenever the product
  and the sum are in the range of \<^verbatim>\<open>int64_t\<close>.
\<close>

theorem C8_seek_gate_and_duration_formula:
  "(if flags AND AVSEEK_FLAG_BYTE \<noteq> 0 \<or> is_live c
    then dash_read_seek ext c den ts flags = Some (AVERROR_ENOSYS, c)
    else
      (let ms = seek_pos ext den ts flags; n = length (all_reps c) in
         ((\<forall>i < n. \<forall>e \<in> set (timelines (all_reps c ! i)). repeat e < 2 ^ 31) \<longrightarrow>
            dash_read_seek ext c den ts flags \<noteq> None)
       \<and> (\<forall>i < n. seeks_by_duration (all_reps c ! i) \<longrightarrow>
            seek_of ext c ms flags i =
              Some (if \<not> ctx (all_reps c ! i)
                    then (0, seek_by_duration_result (all_reps c ! i) ms)
                    else reopen_demux_for_component ext
                           (seek_by_duration_result (all_reps c ! i) ms)))
       \<and> (\<forall>ret c'. dash_read_seek ext c den ts flags = Some (ret, c') \<longrightarrow>
            c' = c\<lparr>videos := videos c', audios := audios c', subtitles := subtitles c'\<rparr>
          \<and> length (videos c') = length (videos c)
          \<and> length (audios c') = length (audios c)
          \<and> length (subtitles c') = length (subtitles c)
          \<and> (\<forall>i < n. if reached ext c ms flags i
                      then map_option snd (seek_of ext c ms flags i) = Some (all_reps c' ! i)
                      else all_reps c' ! i = all_reps c ! i)
          \<and> (if reached ext c ms flags n then ret = 0
              else \<exists>j < n. reached ext c ms flags j
                     \<and> map_option fst (seek_of ext c ms flags j) = Some ret \<and> ret \<noteq> 0))))
   \<and> (int64_range (m * fragment_timescale pls)
        \<and> int64_range (first_seq_no pls +
             ((m * fragment_timescale pls) sdiv fragment_duration pls) sdiv 1000) \<longrightarrow>
      cur_seq_no (seek_by_duration_result pls m) =
        first_seq_no pls + ((m * fragment_timescale pls) sdiv fragment_duration pls) sdiv 1000)"
proof (cases "flags AND AVSEEK_FLAG_BYTE \<noteq> 0 \<or> is_live c")
  case True
  then show ?thesis
    using seek_by_duration_exact [of m pls] by (simp add: dash_read_seek_gate)
next
  case False
  let ?ms = "seek_pos ext den ts flags"
  let ?n = "length (all_reps c)"
  have returns: "(\<forall>i < ?n. \<forall>e \<in> set (timelines (all_reps c ! i)). repeat e < 2 ^ 31) \<longrightarrow>
            dash_read_seek ext c den ts flags \<noteq> None"
    using dash_read_seek_returns [OF False] by blast
  have template: "\<forall>i < ?n. seeks_by_duration (all_reps c ! i) \<longrightarrow>
            seek_of ext c ?ms flags i =
              Some (if \<not> ctx (all_reps c ! i)
                    then (0, seek_by_duration_result (all_reps c ! i) ?ms)
                    else reopen_demux_for_component ext
                           (seek_by_duration_result (all_reps c ! i) ?ms))"
    by (simp add: seek_of_def dash_seek_by_duration)
  have loops: "c' = c\<lparr>videos := videos c', audios := audios c', subtitles := subtitles c'\<rparr>
          \<and> length (videos c') = length (videos c)
          \<and> length (audios c') = length (audios c)
          \<and> length (subtitles c') = length (subtitles c)
          \<and> (\<forall>i < ?n. if reached ext c ?ms flags i
                      then map_option snd (seek_of ext c ?ms flags i) = Some (all_reps c' ! i)
                      else all_reps c' ! i = all_reps c ! i)
          \<and> (if reached ext c ?ms flags ?n then ret = 0
              else \<exists>j < ?n. reached ext c ?ms flags j
                     \<and> map_option fst (seek_of ext c ?ms flags j) = Some ret \<and> ret \<noteq> 0)"
    if some: "dash_read_seek ext c den ts flags = Some (ret, c')" for ret c'
  proof -
    note sl = dash_read_seek_Some(1) [OF False some]
    have each: "if reached ext c ?ms flags i
                then map_option snd (seek_of ext c ?ms flags i) = Some (all_reps c' ! i)
                else all_reps c' ! i = all_reps c ! i" if "i < ?n" for i
      using seek_list_reached [OF sl that] seek_list_untouched [OF sl that]
      unfolding reached_def seek_of_def by simp
    have result: "if reached ext c ?ms flags ?n then ret = 0
              else \<exists>j < ?n. reached ext c ?ms flags j
                     \<and> map_option fst (seek_of ext c ?ms flags j) = Some ret \<and> ret \<noteq> 0"
      using seek_list_all_passed [OF sl] seek_list_first_failure [OF sl]
      unfolding reached_def seek_of_def by simp
    from each result dash_read_seek_Some(2-5) [OF False some] show ?thesis
      by blast
  qed
  from returns template loops seek_by_duration_exact [of m pls] False show ?thesis
    unfolding Let_def by (simp only: if_False) blast
qed

text \<open>C8, an instance: a seek to 10 s over a disabled template+duration video
  representation (which gets sequence number 6), an enabled template+duration audio
  representation (which gets 2 and is reopened), an enabled single-fragment subtitle
  representation whose frame seek fails with \<open>- 1\<close>, and a disabled template+duration
  subtitle representation after it, which keeps its sequence number 0; and the same request
  with the byte flag.\<close>

theorem C8_witness:
  "map_option fst (dash_read_seek plain_externals seek_order_example 1 10 0) = Some (- 1)
   \<and> map_option (\<lambda>r. map cur_seq_no (all_reps (snd r)))
        (dash_read_seek plain_externals seek_order_example 1 10 0) = Some [6, 2, 0, 0]
   \<and> dash_read_seek plain_externals seek_order_example 1 10 AVSEEK_FLAG_BYTE =
        Some (AVERROR_ENOSYS, seek_order_example)"
proof -
  let ?c = "seek_order_example"
  let ?A = "zero_representation\<lparr>first_seq_no := 1, fragment_duration := 2,
              fragment_timescale := 1\<rparr>"
  let ?B = "zero_representation\<lparr>ctx := True, fragment_duration := 4, fragment_timescale := 1\<rparr>"
  let ?C = "zero_representation\<lparr>ctx := True, fragments := [seg0]\<rparr>"
  have reps: "all_reps ?c = [?A, ?B, ?C, ?A]"
    by (simp add: all_reps_def seek_order_example_def default_context_def)
  have n: "length (all_reps ?c) = 4"
    by (simp add: reps)
  have gate: "\<not> (0 AND AVSEEK_FLAG_BYTE \<noteq> 0 \<or> is_live ?c)"
    by (simp add: seek_order_example_def default_context_def)
  have pos: "seek_pos plain_externals 1 10 0 = 10000"
    by (simp add: seek_pos_def plain_externals_def)
  have byte: "AVSEEK_FLAG_BYTE AND AVSEEK_FLAG_BYTE \<noteq> 0 \<or> is_live ?c"
    by (simp add: AVSEEK_FLAG_BYTE_def)
  have tl: "\<forall>i < 4. \<forall>e \<in> set (timelines (all_reps ?c ! i)). repeat e < 2 ^ 31"
  proof (intro allI impI)
    fix i :: nat assume "i < 4"
    then have "i = 0 \<or> i = 1 \<or> i = 2 \<or> i = 3" by linarith
    then show "\<forall>e \<in> set (timelines (all_reps ?c ! i)). repeat e < 2 ^ 31"
      by (auto simp: reps zero_representation_def)
  qed
  have kinds: "seeks_by_duration ?A" "seeks_by_duration ?B" "\<not> ctx ?A" "ctx ?B"
    by (simp_all add: seeks_by_duration_def zero_representation_def)
  have rA: "cur_seq_no (seek_by_duration_result ?A 10000) = 6"
    and rB: "cur_seq_no (snd (reopen_demux_for_component plain_externals
               (seek_by_duration_result ?B 10000))) = 2"
    and rB0: "fst (reopen_demux_for_component plain_externals
               (seek_by_duration_result ?B 10000)) = 0"
    by (simp_all add: seek_by_duration_result_def zero_representation_def wrap64_def
          signed_divide_int_def plain_externals_def plain_reopen_def)
  have sC: "seek_of plain_externals ?c 10000 0 2 = Some (- 1, ?C)"
    by (simp add: seek_of_def reps dash_seek_def plain_externals_def zero_representation_def
          seg0_def)
  note T = C8_seek_gate_and_duration_formula
    [where flags = 0 and c = ?c and ext = plain_externals and den = 1 and ts = 10,
      THEN conjunct1, unfolded if_not_P [OF gate] Let_def pos n]
  note parts = T [THEN conjunct1] T [THEN conjunct2, THEN conjunct1, rule_format]
    T [THEN conjunct2, THEN conjunct2, rule_format]
  from parts(1) tl obtain ret c'
    where some: "dash_read_seek plain_externals ?c 1 10 0 = Some (ret, c')"
    by fastforce
  have sA: "seek_of plain_externals ?c 10000 0 0 = Some (0, seek_by_duration_result ?A 10000)"
    using parts(2) [of 0] kinds by (simp add: reps)
  have sB: "seek_of plain_externals ?c 10000 0 1 =
              Some (reopen_demux_for_component plain_externals (seek_by_duration_result ?B 10000))"
    using parts(2) [of 1] kinds by (simp add: reps)
  have fA: "map_option fst (seek_of plain_externals ?c 10000 0 0) = Some 0"
    unfolding sA by simp
  have fB: "map_option fst (seek_of plain_externals ?c 10000 0 1) = Some 0"
    unfolding sB using rB0 by simp
  have fC: "map_option fst (seek_of plain_externals ?c 10000 0 2) = Some (- 1)"
    unfolding sC by simp
  have r0: "reached plain_externals ?c 10000 0 0"
    by (simp add: reached_def)
  have r1: "reached plain_externals ?c 10000 0 1"
    using fA by (simp add: reached_def)
  have r2: "reached plain_externals ?c 10000 0 2"
    unfolding reached_def
  proof (intro allI impI)
    fix j :: nat assume "j < 2"
    then have "j = 0 \<or> j = 1" by linarith
    then show "map_option fst (seek_of plain_externals ?c 10000 0 j) = Some 0"
      using fA fB by blast
  qed
  have r3: "\<not> reached plain_externals ?c 10000 0 3"
    unfolding reached_def using fC by (auto intro!: exI [of _ 2])
  have r4: "\<not> reached plain_externals ?c 10000 0 4"
    unfolding reached_def using fC by (auto intro!: exI [of _ 2])
  note P = parts(3) [OF some]
  from P have len: "length (all_reps c') = 4"
    by (simp add: all_reps_def seek_order_example_def default_context_def)
  from P have each: "\<And>i. i < 4 \<Longrightarrow>
      (if reached plain_externals ?c 10000 0 i
       then map_option snd (seek_of plain_externals ?c 10000 0 i) = Some (all_reps c' ! i)
       else all_reps c' ! i = all_reps ?c ! i)"
    by blast
  have e0: "all_reps c' ! 0 = seek_by_duration_result ?A 10000"
    using each [of 0] r0 sA by simp
  have e1: "all_reps c' ! 1 =
      snd (reopen_demux_for_component plain_externals (seek_by_duration_result ?B 10000))"
    using each [of 1] r1 sB by simp
  have e2: "all_reps c' ! 2 = ?C"
    using each [of 2] r2 sC by simp
  have e3: "all_reps c' ! 3 = ?A"
    using each [of 3] r3 by (simp add: reps)
  from P r4 obtain j where j: "j < 4" "reached plain_externals ?c 10000 0 j"
    and rj: "map_option fst (seek_of plain_externals ?c 10000 0 j) = Some ret"
    by auto
  have "j \<noteq> 3" using j(2) r3 by auto
  with j(1) have "j = 0 \<or> j = 1 \<or> j = 2" by linarith
  moreover from P r4 have "ret \<noteq> 0" by auto
  ultimately have ret: "ret = - 1"
    using rj fA fB fC by auto
  have seqs: "map cur_seq_no (all_reps c') = [6, 2, 0, 0]"
  proof (rule nth_equalityI)
    show "length (map cur_seq_no (all_reps c')) = length [6, 2, 0, 0 :: int]"
      by (simp add: len)
  next
    fix i assume "i < length (map cur_seq_no (all_reps c'))"
    then have "i = 0 \<or> i = 1 \<or> i = 2 \<or> i = 3"
      using len by simp linarith
    then show "map cur_seq_no (all_reps c') ! i = [6, 2, 0, 0] ! i"
      using len e0 e1 e2 e3 rA rB by (auto simp: zero_representation_def)
  qed
  have "dash_read_seek plain_externals ?c 1 10 AVSEEK_FLAG_BYTE = Some (AVERROR_ENOSYS, ?c)"
    using C8_seek_gate_and_duration_formula
      [where flags = AVSEEK_FLAG_BYTE and c = ?c and ext = plain_externals and den = 1 and ts = 10]
      byte
    by simp
  with some ret seqs show ?thesis
    by simp
qed

section \<open>Claim about the period selection\<close>

text \<open>
  C4.  During (re)parse with a given \<^verbatim>\<open>curr_timepoint\<close>: if some Period has its start at or
  before \<^verbatim>\<open>curr_timepoint\<close>, the chosen Period is one of them and its gap
  \<^verbatim>\<open>curr_timepoint - start\<close> is the smallest; if none has, the chosen Period is the latest
  (greatest start) among those whose start is not before the previously remembered
  \<^verbatim>\<open>period_start\<close>; if neither kind exists, the result is \<^verbatim>\<open>AVERROR_INVALIDDATA\<close>.  In both
  successful cases the context remembers the start of the chosen Period.
\<close>

theorem C4_period_selection:
  "(case parse_manifest_periods curr_timepoint c nodes of
      Inr (c', k) \<Rightarrow>
        (\<exists>ps. k < length nodes \<and> period_start_of (nodes ! k) = Some ps
           \<and> period_start c' = ucast ps
           \<and> (if \<exists>q \<in> set (period_starts nodes). q \<le> curr_timepoint
               then ps \<le> curr_timepoint
                  \<and> (\<forall>q \<in> set (period_starts nodes). q \<le> curr_timepoint \<longrightarrow>
                        uint curr_timepoint - uint ps \<le> uint curr_timepoint - uint q)
               else period_start c \<le> ucast ps
                  \<and> (\<forall>q \<in> set (period_starts nodes). period_start c \<le> ucast q \<longrightarrow> q \<le> ps)))
    | Inl e \<Rightarrow>
        e = AVERROR_INVALIDDATA
        \<and> (\<forall>q \<in> set (period_starts nodes). \<not> q \<le> curr_timepoint \<and> \<not> period_start c \<le> ucast q))"
proof -
  let ?tp = curr_timepoint
  obtain c' d' m' md' where walk:
    "walk_periods ?tp nodes 0 (c, None, None, INT64_MAX) = (c', d', m', md')"
    by (metis prod_cases4)
  note M = walk_matching [OF walk, unfolded candidate_INT64_MAX]
  show ?thesis
  proof (cases "\<exists>q \<in> set (period_starts nodes). q \<le> ?tp")
    case True
    with M obtain k ps where k: "m' = Some k" "k < length nodes"
      "period_start_of (nodes ! k) = Some ps" "md' = uint ?tp - uint ps" "0 \<le> md'"
      "\<forall>q \<in> set (period_starts nodes). 0 \<le> uint ?tp - uint q \<longrightarrow> md' \<le> uint ?tp - uint q"
      "period_start c' = ucast ps"
      by auto
    from k(4,5) have "ps \<le> ?tp" by (simp add: word_le_def)
    moreover have "\<forall>q \<in> set (period_starts nodes). q \<le> ?tp \<longrightarrow>
                        uint ?tp - uint ps \<le> uint ?tp - uint q"
      using k(4,6) by (simp add: word_le_def)
    ultimately have "\<exists>ps. k < length nodes \<and> period_start_of (nodes ! k) = Some ps
           \<and> period_start c' = ucast ps
           \<and> ps \<le> ?tp
           \<and> (\<forall>q \<in> set (period_starts nodes). q \<le> ?tp \<longrightarrow>
                        uint ?tp - uint ps \<le> uint ?tp - uint q)"
      using k by blast
    with True show ?thesis
      by (simp add: parse_manifest_periods_def walk k(1))
  next
    case False
    with M have m: "m' = None" by simp
    from False have nocand: "\<forall>q \<in> set (period_starts nodes). \<not> candidate ?tp INT64_MAX q"
      by (simp add: candidate_INT64_MAX)
    note D = walk_default [OF walk nocand]
    show ?thesis
    proof (cases "\<exists>q \<in> set (period_starts nodes). period_start c \<le> ucast q")
      case True
      with D obtain k ps where k: "d' = Some k" "k < length nodes"
        "period_start_of (nodes ! k) = Some ps" "period_start c \<le> ucast ps"
        "\<forall>q \<in> set (period_starts nodes). period_start c \<le> ucast q \<longrightarrow> q \<le> ps"
        "period_start c' = ucast ps"
        by auto
      then have "\<exists>ps. k < length nodes \<and> period_start_of (nodes ! k) = Some ps
           \<and> period_start c' = ucast ps
           \<and> period_start c \<le> ucast ps
           \<and> (\<forall>q \<in> set (period_starts nodes). period_start c \<le> ucast q \<longrightarrow> q \<le> ps)"
        by blast
      with False show ?thesis
        by (simp add: parse_manifest_periods_def walk m k(1))
    next
      case nd: False
      with D have "d' = None" by simp
      with False nd show ?thesis
        by (simp add: parse_manifest_periods_def walk m)
    qed
  qed
qed

text \<open>C4, instances: time point 15 among Periods starting at 0, 10 and 20 chooses the one at
  10; a single Period at 10 with time point 5 and a remembered start of 30 is an error.\<close>

theorem C4_witness:
  "parse_manifest_periods 15 default_context three_periods =
     Inr (default_context\<lparr>period_duration := 10, period_start := 10,
            media_presentation_duration := 10\<rparr>, 2)
   \<and> period_start_of (three_periods ! 2) = Some 10
   \<and> parse_manifest_periods 5 (default_context\<lparr>period_start := 30\<rparr>) [Period 10 10, OtherElement]
       = Inl AVERROR_INVALIDDATA"
proof -
  have a: "parse_manifest_periods 5 (default_context\<lparr>period_start := 30\<rparr>)
             [Period 10 10, OtherElement] = Inl AVERROR_INVALIDDATA"
    using C4_period_selection [where curr_timepoint = 5
             and c = "default_context\<lparr>period_start := 30\<rparr>"
             and nodes = "[Period 10 10, OtherElement]"]
    by (simp add: parse_manifest_periods_def default_context_def
          set_period_def INT64_MAX_def Let_def)
  show ?thesis
    using C4_period_selection [where curr_timepoint = 15 and c = default_context
             and nodes = three_periods] a
    by (simp add: three_periods_eval) (simp add: three_periods_def)
qed

section \<open>Claim about the duration parser\<close>



section \<open>Claim about the failed refresh\<close>

text \<open>
  C3 (as stated, refuted).  The refreshed manifest has the driven video representation at
  1280 pixels instead of 640 and was fetched under another base URL.  The compatibility
  check fails with \<^verbatim>\<open>AVERROR_INPUT_CHANGED\<close>; afterwards the driven representation in the
  video list has the width 1280 and the base URL is the one of the refreshed manifest.
\<close>

theorem C3_counterexample:
  "fst (refresh_manifest parse_resized 0 live_context (Video 0)) = AVERROR_INPUT_CHANGED
   \<and> map width (videos live_context) = [640]
   \<and> map width (videos (snd (refresh_manifest parse_resized 0 live_context (Video 0)))) = [1280]
   \<and> base_url live_context = Some ''http://a/live.mpd''
   \<and> base_url (snd (refresh_manifest parse_resized 0 live_context (Video 0))) =
        Some ''http://b/live.mpd''"
  by (simp add: refresh_eval parse_resized_def)

text \<open>
  C3 (amended).  If a live manifest refresh fails because the parse returns an error or a
  media-compatibility check fails, then after \<^verbatim>\<open>refresh_manifest\<close> returns the lists
  \<^verbatim>\<open>videos\<close>, \<^verbatim>\<open>audios\<close> and \<^verbatim>\<open>subtitles\<close> have their counts and representations from before
  the refresh, in the same order.  After a parse error the result is the error of the parse
  and the lists are exactly the snapshot.  After a failed check the result is
  \<^verbatim>\<open>AVERROR_INPUT_CHANGED\<close>, the driven representation is a video or an audio one, and
  the lists are the snapshot except for the driven representation, which differs from its
  snapshot in one way only: the first parameter that the check found changed, in the order
  resolution (width and height together), frame rate, codecs, scan type for a video
  representation and codecs alone for an audio one, now has the value of the
  representation with the same id in the refreshed manifest; when no value changed and
  the check failed because codecs or scan type is present on one side only, nothing is
  overwritten.  The base URL is the snapshot's if the parse left none, and the one the
  parse produced otherwise.  (Nothing is said here about a refreshed manifest that lacks
  the driven representation.)
\<close>

theorem C3_failed_refresh_restores_lists:
  assumes valid: "valid_ref c target"
    and fail: "fst (refresh_manifest parse now c target) \<noteq> 0"
    and found: "fst (refreshed parse c target) \<noteq> 0 \<or> target_found (snd (refreshed parse c target)) c target"
  shows "restored_but_media_params c (snd (refresh_manifest parse now c target)) target
       \<and> subtitles (snd (refresh_manifest parse now c target)) = subtitles c
       \<and> (if fst (refreshed parse c target) \<noteq> 0
           then fst (refresh_manifest parse now c target) = fst (refreshed parse c target)
              \<and> videos (snd (refresh_manifest parse now c target)) = videos c
              \<and> audios (snd (refresh_manifest parse now c target)) = audios c
           else fst (refresh_manifest parse now c target) = AVERROR_INPUT_CHANGED
              \<and> (case target of
                    Video i \<Rightarrow>
                      audios (snd (refresh_manifest parse now c target)) = audios c
                      \<and> videos (snd (refresh_manifest parse now c target)) =
                          (videos c)[i :=
                            (let cur = videos c ! i;
                                 new = the (find_by_id (videos (snd (refreshed parse c target))) cur)
                             in if width new \<noteq> width cur \<or> height new \<noteq> height cur
                                  then cur\<lparr>width := width new, height := height new\<rparr>
                                else if av_cmp_q (framerate new) (framerate cur) \<noteq> 0
                                  then cur\<lparr>framerate := framerate new\<rparr>
                                else if codecs new \<noteq> None \<and> codecs cur \<noteq> None
                                        \<and> codecs new \<noteq> codecs cur
                                  then cur\<lparr>codecs := codecs new\<rparr>
                                else if scantype new \<noteq> None \<and> scantype cur \<noteq> None
                                        \<and> scantype new \<noteq> scantype cur
                                  then cur\<lparr>scantype := scantype new\<rparr>
                                else cur)]
                  | Audio i \<Rightarrow>
                      videos (snd (refresh_manifest parse now c target)) = videos c
                      \<and> audios (snd (refresh_manifest parse now c target)) =
                          (audios c)[i :=
                            (let cur = audios c ! i;
                                 new = the (find_by_id (audios (snd (refreshed parse c target))) cur)
                             in if codecs new \<noteq> None \<and> codecs cur \<noteq> None
                                     \<and> codecs new \<noteq> codecs cur
                                  then cur\<lparr>codecs := codecs new\<rparr>
                                else cur)]
                  | Subtitle i \<Rightarrow> False))
       \<and> base_url (snd (refresh_manifest parse now c target)) =
           (if base_url (snd (refreshed parse c target)) \<noteq> None
            then base_url (snd (refreshed parse c target)) else base_url c)"
proof (cases "fst (refreshed parse c target) \<noteq> 0")
  case True
  show ?thesis
    unfolding refresh_manifest_parse_failed [OF True]
    using True by (simp add: refresh_finish_def restored_self)
next
  case False
  then have parsed: "fst (refreshed parse c target) = 0" by simp
  with found have tf: "target_found (snd (refreshed parse c target)) c target" by simp
  show ?thesis
  proof (cases target)
    case (Video i)
    from valid have i: "i < length (videos c)"
      unfolding Video by (simp add: valid_ref_def)
    from tf obtain new
      where new: "find_by_id (videos (snd (refreshed parse c (Video i)))) (videos c ! i) = Some new"
      unfolding Video by (auto simp: target_found_def)
    note res = failed_check_video [OF i fail [unfolded Video] parsed [unfolded Video] new]
    note same = restored_video [OF i move_video_params_same [of "videos c ! i" new]]
    have restored: "restored_but_media_params c (snd (refresh_manifest parse now c (Video i))) (Video i)"
      unfolding res refresh_finish_def using same by simp
    show ?thesis
      unfolding Video using restored
      by (simp add: res refresh_finish_def parsed [unfolded Video] new Let_def
            move_video_params_overwrites)
  next
    case (Audio i)
    from valid have i: "i < length (audios c)"
      unfolding Audio by (simp add: valid_ref_def)
    from tf obtain new
      where new: "find_by_id (audios (snd (refreshed parse c (Audio i)))) (audios c ! i) = Some new"
      unfolding Audio by (auto simp: target_found_def)
    note res = failed_check_audio [OF i fail [unfolded Audio] parsed [unfolded Audio] new]
    note same = restored_audio [OF i move_audio_params_same [of "audios c ! i" new]]
    have restored: "restored_but_media_params c (snd (refresh_manifest parse now c (Audio i))) (Audio i)"
      unfolding res refresh_finish_def using same by simp
    show ?thesis
      unfolding Audio using restored
      by (simp add: res refresh_finish_def parsed [unfolded Audio] new Let_def
            move_audio_params_overwrites)
  next
    case (Subtitle i)
    from parsed_subtitle_refresh [OF parsed [unfolded Subtitle], of now] fail
    show ?thesis
      unfolding Subtitle by simp
  qed
qed

text \<open>C3, two instances.  The manifest cannot be fetched (the parse returns \<open>- 5\<close> and
  leaves no base URL): the lists and the base URL are the snapshot.  The refreshed manifest
  has the driven video representation at 1280 by 720 instead of 640 by 360 under another
  base URL: the video list is the snapshot with that one representation at 1280 by 720,
  and the base URL is the new one.\<close>

theorem C3_witness:
  "fst (refresh_manifest parse_unreachable 0 live_context (Video 0)) = - 5
   \<and> videos (snd (refresh_manifest parse_unreachable 0 live_context (Video 0))) =
        videos live_context
   \<and> audios (snd (refresh_manifest parse_unreachable 0 live_context (Video 0))) =
        audios live_context
   \<and> base_url (snd (refresh_manifest parse_unreachable 0 live_context (Video 0))) =
        base_url live_context
   \<and> fst (refresh_manifest parse_resized 0 live_context (Video 0)) = AVERROR_INPUT_CHANGED
   \<and> videos (snd (refresh_manifest parse_resized 0 live_context (Video 0))) =
        [live_video\<lparr>width := 1280, height := 720\<rparr>]
   \<and> audios (snd (refresh_manifest parse_resized 0 live_context (Video 0))) = []
   \<and> subtitles (snd (refresh_manifest parse_resized 0 live_context (Video 0))) = []
   \<and> base_url (snd (refresh_manifest parse_resized 0 live_context (Video 0))) =
        Some ''http://b/live.mpd''"
proof -
  have valid: "valid_ref live_context (Video 0)"
    by (simp add: valid_ref_def live_context_def)
  have r: "refreshed parse_unreachable live_context (Video 0) = (- 5, cleared live_context)"
    by (simp add: refreshed_def parse_unreachable_def)
  have fail: "fst (refresh_manifest parse_unreachable 0 live_context (Video 0)) \<noteq> 0"
    by (simp add: refresh_manifest_parse_failed r refresh_finish_def)
  have found: "fst (refreshed parse_unreachable live_context (Video 0)) \<noteq> 0
     \<or> target_found (snd (refreshed parse_unreachable live_context (Video 0)))
          live_context (Video 0)"
    by (simp add: r)
  have unreachable:
    "fst (refresh_manifest parse_unreachable 0 live_context (Video 0)) = - 5
     \<and> videos (snd (refresh_manifest parse_unreachable 0 live_context (Video 0))) =
          videos live_context
     \<and> audios (snd (refresh_manifest parse_unreachable 0 live_context (Video 0))) =
          audios live_context
     \<and> base_url (snd (refresh_manifest parse_unreachable 0 live_context (Video 0))) =
          base_url live_context"
    using C3_failed_refresh_restores_lists [OF valid fail found]
    by (simp add: r cleared_def)
  have r2: "refreshed parse_resized live_context (Video 0) =
              (0, (cleared live_context)\<lparr>base_url := Some ''http://b/live.mpd'',
                     videos := [live_video\<lparr>width := 1280, height := 720\<rparr>]\<rparr>)"
    by (simp add: refreshed_def parse_resized_def)
  have fail2: "fst (refresh_manifest parse_resized 0 live_context (Video 0)) \<noteq> 0"
    by (simp add: refresh_eval parse_resized_def)
  have found2: "fst (refreshed parse_resized live_context (Video 0)) \<noteq> 0
     \<or> target_found (snd (refreshed parse_resized live_context (Video 0)))
          live_context (Video 0)"
    unfolding r2
    by (simp add: target_found_def cleared_def live_context_def live_video_def
          zero_representation_def)
  have resized:
    "fst (refresh_manifest parse_resized 0 live_context (Video 0)) = AVERROR_INPUT_CHANGED
     \<and> videos (snd (refresh_manifest parse_resized 0 live_context (Video 0))) =
          [live_video\<lparr>width := 1280, height := 720\<rparr>]
     \<and> audios (snd (refresh_manifest parse_resized 0 live_context (Video 0))) = []
     \<and> subtitles (snd (refresh_manifest parse_resized 0 live_context (Video 0))) = []
     \<and> base_url (snd (refresh_manifest parse_resized 0 live_context (Video 0))) =
          Some ''http://b/live.mpd''"
  proof -
    have lists: "videos live_context = [live_video]" "audios live_context = []"
      "subtitles live_context = []"
      by (simp_all add: live_context_def default_context_def)
    have differ: "width (live_video\<lparr>width := 1280, height := 720\<rparr>) \<noteq> width live_video"
      by (simp add: live_video_def)
    have same_id: "find_by_id [live_video\<lparr>width := 1280, height := 720\<rparr>] live_video =
        Some (live_video\<lparr>width := 1280, height := 720\<rparr>)"
      by (simp add: live_video_def)
    show ?thesis
      using C3_failed_refresh_restores_lists [OF valid fail2 found2] differ
      by (simp add: r2 cleared_def lists same_id del: find_by_id.simps)
  qed
  from unreachable resized show ?thesis
    by simp
qed

end
